theory Spec2Isabelle
  imports Main "HOL-Library.Multiset"
begin

section \<open>Rows of the feed\<close>

text \<open>
  \<^verbatim>\<open>csv.DictReader\<close> yields one dict per line, keyed by the header's column names.
  A cell is a \<^verbatim>\<open>str\<close>; when a line has fewer cells than the header has columns, the
  reader fills the remaining columns with \<^verbatim>\<open>None\<close> (its \<^verbatim>\<open>restval\<close>). A column
  that the header does not name is absent from the dict. Characters are code points
  below 256.
\<close>

datatype pyval = PyNone | PyStr string

type_synonym raw_row = "string \<rightharpoonup> pyval"

datatype py_error =
    AttributeError
  | TypeError
  | ValueError
  | RuntimeError
  | InvalidOperation
  | BulkWriteError nat

text \<open>\<^verbatim>\<open>row.get(k, d)\<close>: the default is used only when the key is absent.\<close>

definition row_get :: "raw_row \<Rightarrow> string \<Rightarrow> pyval \<Rightarrow> pyval" where
  "row_get row k d = (case row k of None \<Rightarrow> d | Some v \<Rightarrow> v)"

text \<open>\<^verbatim>\<open>str.isspace\<close> on the code points below 256.\<close>

definition is_space :: "char \<Rightarrow> bool" where
  "is_space c = (c \<in> set [CHR 0x09, CHR 0x0A, CHR 0x0B, CHR 0x0C, CHR 0x0D,
                           CHR 0x1C, CHR 0x1D, CHR 0x1E, CHR 0x1F, CHR 0x20,
                           CHR 0x85, CHR 0xA0])"

definition str_strip :: "string \<Rightarrow> string" where
  "str_strip s = rev (dropWhile is_space (rev (dropWhile is_space s)))"

text \<open>\<^verbatim>\<open>str.lower\<close> on the code points below 256.\<close>

definition char_lower :: "char \<Rightarrow> char" where
  "char_lower c =
     (let n = (of_char c :: nat)
      in if (65 \<le> n \<and> n \<le> 90) \<or> (192 \<le> n \<and> n \<le> 222 \<and> n \<noteq> 215)
         then char_of (n + 32) else c)"

definition str_lower :: "string \<Rightarrow> string" where
  "str_lower s = map char_lower s"

text \<open>Method calls on a cell: \<^verbatim>\<open>None\<close> has neither \<^verbatim>\<open>strip\<close> nor \<^verbatim>\<open>lower\<close>.\<close>

fun py_strip :: "pyval \<Rightarrow> py_error + string" where
  "py_strip PyNone = Inl AttributeError"
| "py_strip (PyStr s) = Inr (str_strip s)"

fun py_lower :: "pyval \<Rightarrow> py_error + string" where
  "py_lower PyNone = Inl AttributeError"
| "py_lower (PyStr s) = Inr (str_lower s)"

fun truthy :: "pyval \<Rightarrow> bool" where
  "truthy PyNone = False"
| "truthy (PyStr s) = (s \<noteq> [])"

text \<open>
  \<^verbatim>\<open>datetime.fromisoformat\<close> is a library function: it is a parameter
  \<open>fromiso :: string \<Rightarrow> 't option\<close>, \<open>None\<close> where the library raises \<^verbatim>\<open>ValueError\<close>.
  The \<^verbatim>\<open>try\<close> of the source catches that error only; a \<^verbatim>\<open>TypeError\<close> (an argument
  that is not a string) would escape.
\<close>

fun try_fromisoformat :: "(string \<Rightarrow> 't option) \<Rightarrow> pyval \<Rightarrow> py_error + 't option" where
  "try_fromisoformat fromiso PyNone = Inl TypeError"
| "try_fromisoformat fromiso (PyStr s) = Inr (fromiso s)"

section \<open>The record transformer: \<^verbatim>\<open>_clean_row\<close>\<close>

record 't document =
  phish_id :: string
  url :: string
  submission_time :: "'t option"
  verified :: bool
  ingested_at :: 't

text \<open>
  The result is \<open>Inl e\<close> when the call raises, \<open>Inr None\<close> when it returns \<^verbatim>\<open>None\<close>
  (the row is skipped) and \<open>Inr (Some d)\<close> when it returns the document. The argument
  \<open>now\<close> is the reading of \<^verbatim>\<open>datetime.now(timezone.utc)\<close> at this call.
\<close>

definition clean_row ::
  "(string \<Rightarrow> 't option) \<Rightarrow> 't \<Rightarrow> raw_row \<Rightarrow> py_error + 't document option" where
  "clean_row fromiso now row =
     (case py_strip (row_get row ''phish_id'' (PyStr '''')) of
        Inl e \<Rightarrow> Inl e
      | Inr pid \<Rightarrow>
     (case py_strip (row_get row ''url'' (PyStr '''')) of
        Inl e \<Rightarrow> Inl e
      | Inr link \<Rightarrow>
     if pid = [] \<or> link = [] then Inr None
     else
     (case (if truthy (row_get row ''submission_time'' PyNone)
            then try_fromisoformat fromiso (row_get row ''submission_time'' PyNone)
            else Inr None) of
        Inl e \<Rightarrow> Inl e
      | Inr submitted_time \<Rightarrow>
     (case py_lower (row_get row ''verified'' (PyStr '''')) of
        Inl e \<Rightarrow> Inl e
      | Inr v \<Rightarrow>
          Inr (Some \<lparr> phish_id = pid, url = link, submission_time = submitted_time,
                      verified = (v \<in> set [''yes'', ''y'', ''true'']),
                      ingested_at = now \<rparr>)))))"

section \<open>The document store\<close>

text \<open>
  The collection is an external collaborator (MongoDB through \<^verbatim>\<open>pymongo\<close>). It has a
  unique index on \<^verbatim>\<open>phish_id\<close> (created in \<^verbatim>\<open>_connect\<close>), so it holds at most one
  document for each value of that field: the collection is a map from the value of
  \<^verbatim>\<open>phish_id\<close> to the fields of its document. The identifier \<^verbatim>\<open>_id\<close> that the server
  generates is left out.
\<close>

datatype 't field_value = VStr string | VBool bool | VTime 't | VNull

type_synonym 't fields = "string \<rightharpoonup> 't field_value"

type_synonym 't store = "string \<rightharpoonup> 't fields"

text \<open>
  Requests of a bulk write. \<open>UpdateOne k sets ups\<close> is
  \<^verbatim>\<open>UpdateOne({"phish_id": k}, {"$set": sets}, upsert=ups)\<close>; \<open>DeleteOne k\<close> is the
  library's \<^verbatim>\<open>DeleteOne({"phish_id": k})\<close>, which the pipeline never builds.
\<close>

datatype 't write_op =
    UpdateOne string "(string \<times> 't field_value) list" bool
  | DeleteOne string

text \<open>The dict that \<^verbatim>\<open>_clean_row\<close> returns, as the operand of \<^verbatim>\<open>$set\<close>.\<close>

definition set_doc :: "'t document \<Rightarrow> (string \<times> 't field_value) list" where
  "set_doc d =
     [(''phish_id'', VStr (phish_id d)),
      (''url'', VStr (url d)),
      (''submission_time'', (case submission_time d of None \<Rightarrow> VNull | Some t \<Rightarrow> VTime t)),
      (''verified'', VBool (verified d)),
      (''ingested_at'', VTime (ingested_at d))]"

definition upsert_op :: "'t document \<Rightarrow> 't write_op" where
  "upsert_op d = UpdateOne (phish_id d) (set_doc d) True"

text \<open>
  One request on the collection; the result carries the request's contribution to
  \<^verbatim>\<open>upserted_count\<close> and \<^verbatim>\<open>matched_count\<close>. \<^verbatim>\<open>$set\<close> overwrites the named fields and
  keeps the others; an upsert that matches nothing inserts the filter's field together
  with the fields set.
\<close>

fun apply_op :: "'t store \<Rightarrow> 't write_op \<Rightarrow> 't store \<times> nat \<times> nat" where
  "apply_op s (UpdateOne k sets ups) =
     (case s k of
        Some old \<Rightarrow> (s(k \<mapsto> old ++ map_of sets), 0, 1)
      | None \<Rightarrow>
          if ups then (s(k \<mapsto> [''phish_id'' \<mapsto> VStr k] ++ map_of sets), 1, 0)
          else (s, 0, 0))"
| "apply_op s (DeleteOne k) = (s(k := None), 0, 0)"

text \<open>
  A list of requests performed one after the other without stopping at an error:
  every request is attempted, a request that the server rejects (\<open>rej\<close>, a parameter:
  the server's write errors) changes nothing and does not stop the others. The result
  is the collection, \<^verbatim>\<open>upserted_count\<close>, \<^verbatim>\<open>matched_count\<close> and the number of write
  errors.
\<close>

fun bulk_apply ::
  "('t store \<Rightarrow> 't write_op \<Rightarrow> bool) \<Rightarrow> 't store \<Rightarrow> 't write_op list
     \<Rightarrow> 't store \<times> nat \<times> nat \<times> nat" where
  "bulk_apply rej s [] = (s, 0, 0, 0)"
| "bulk_apply rej s (w # ws) =
     (if rej s w
      then (case bulk_apply rej s ws of (s', u, m, e) \<Rightarrow> (s', u, m, e + 1))
      else (case apply_op s w of (s1, u1, m1) \<Rightarrow>
             (case bulk_apply rej s1 ws of (s', u, m, e) \<Rightarrow> (s', u1 + u, m1 + m, e))))"

text \<open>
  An empty request list raises \<^verbatim>\<open>InvalidOperation\<close>; write errors raise
  \<^verbatim>\<open>BulkWriteError\<close> after all requests were attempted. With \<^verbatim>\<open>ordered=False\<close> the
  server performs the requests in an order of its choice: \<open>ord s ws\<close>, a parameter, is
  the order in which it performs the list \<open>ws\<close> on the collection \<open>s\<close>.
\<close>

definition bulk_write ::
  "('t store \<Rightarrow> 't write_op \<Rightarrow> bool) \<Rightarrow> ('t store \<Rightarrow> 't write_op list \<Rightarrow> 't write_op list)
     \<Rightarrow> 't store \<Rightarrow> 't write_op list \<Rightarrow> 't store \<times> (py_error + nat \<times> nat)" where
  "bulk_write rej ord s ws =
     (if ws = [] then (s, Inl InvalidOperation)
      else (case bulk_apply rej s (ord s ws) of
              (s', u, m, e) \<Rightarrow> (s', if e = 0 then Inr (u, m) else Inl (BulkWriteError e))))"

section \<open>The batch reconciler: \<^verbatim>\<open>_commit_batch\<close>\<close>

text \<open>
  The result is the collection after the call, the pair returned and whether the
  \<^verbatim>\<open>[WARN]\<close> line was printed. Only \<^verbatim>\<open>BulkWriteError\<close> is caught.
\<close>

definition commit_batch ::
  "('t store \<Rightarrow> 't write_op \<Rightarrow> bool) \<Rightarrow> ('t store \<Rightarrow> 't write_op list \<Rightarrow> 't write_op list)
     \<Rightarrow> 't store \<Rightarrow> 't write_op list \<Rightarrow> py_error + ('t store \<times> (nat \<times> nat) \<times> bool)" where
  "commit_batch rej ord s batch_ops =
     (case bulk_write rej ord s batch_ops of
        (s', Inr (u, m)) \<Rightarrow> Inr (s', (u, m), False)
      | (s', Inl err) \<Rightarrow>
          (case err of
             BulkWriteError n \<Rightarrow> Inr (s', (0, 0), True)
           | _ \<Rightarrow> Inl err))"

section \<open>The resilient fetcher: \<^verbatim>\<open>_fetch_csv\<close>\<close>

text \<open>
  The network is a parameter: \<open>net i\<close> is the outcome of the request made in attempt
  \<open>i\<close> (counted from 0), \<open>None\<close> when \<^verbatim>\<open>requests.get\<close> or \<^verbatim>\<open>raise_for_status\<close> raises
  \<^verbatim>\<open>RequestException\<close>, \<open>Some r\<close> when the reader \<open>r\<close> is returned. The effects are
  recorded as a trace of requests and sleeps. \<^verbatim>\<open>time.sleep\<close> raises \<^verbatim>\<open>ValueError\<close> on
  a negative argument, inside the handler, so that error escapes.
\<close>

datatype fetch_event = Get nat | Sleep int

fun fetch_attempts ::
  "(nat \<Rightarrow> 'r option) \<Rightarrow> int \<Rightarrow> int \<Rightarrow> nat \<Rightarrow> nat \<Rightarrow> fetch_event list \<times> (py_error + 'r)" where
  "fetch_attempts net retries backoff attempt 0 = ([], Inl RuntimeError)"
| "fetch_attempts net retries backoff attempt (Suc k) =
     (case net attempt of
        Some r \<Rightarrow> ([Get attempt], Inr r)
      | None \<Rightarrow>
          if int attempt < retries - 1
          then (let wait = backoff * (int attempt + 1)
                in if wait < 0 then ([Get attempt], Inl ValueError)
                   else (case fetch_attempts net retries backoff (Suc attempt) k of
                           (evs, res) \<Rightarrow> (Get attempt # Sleep wait # evs, res)))
          else (case fetch_attempts net retries backoff (Suc attempt) k of
                  (evs, res) \<Rightarrow> (Get attempt # evs, res)))"

text \<open>\<^verbatim>\<open>for attempt in range(retries)\<close> runs \<open>nat retries\<close> times, from attempt 0.\<close>

definition fetch_csv ::
  "(nat \<Rightarrow> 'r option) \<Rightarrow> int \<Rightarrow> int \<Rightarrow> fetch_event list \<times> (py_error + 'r)" where
  "fetch_csv net retries backoff = fetch_attempts net retries backoff 0 (nat retries)"

section \<open>The orchestrator: \<^verbatim>\<open>run\<close>\<close>

text \<open>
  The environment of a run: the timestamp parser, the clock (\<open>utcnow i\<close> is the reading
  taken while row number \<open>i\<close>, counted from 0, is transformed), the server's write
  errors and the order in which the server performs a bulk write.
\<close>

record 't env =
  fromisoformat :: "string \<Rightarrow> 't option"
  utcnow :: "nat \<Rightarrow> 't"
  rejects :: "'t store \<Rightarrow> 't write_op \<Rightarrow> bool"
  bulk_order :: "'t store \<Rightarrow> 't write_op list \<Rightarrow> 't write_op list"

text \<open>
  The variables of \<^verbatim>\<open>run\<close> and the collection. Three fields observe the run without
  influencing it: \<open>rows_read\<close> counts the rows the \<^verbatim>\<open>for\<close> statement has taken from the
  reader, \<open>commits\<close> lists the arguments of the calls of \<^verbatim>\<open>_commit_batch\<close> in order, and
  \<open>warnings\<close> counts the \<^verbatim>\<open>[WARN]\<close> lines.
\<close>

record 't run_state =
  coll :: "'t store"
  pending_ops :: "'t write_op list"
  inserted :: nat
  updated :: nat
  skipped :: nat
  processed :: nat
  rows_read :: nat
  commits :: "'t write_op list list"
  warnings :: nat

definition init_state :: "'t store \<Rightarrow> 't run_state" where
  "init_state s =
     \<lparr> coll = s, pending_ops = [], inserted = 0, updated = 0, skipped = 0, processed = 0,
       rows_read = 0, commits = [], warnings = 0 \<rparr>"

text \<open>\<^verbatim>\<open>max_rows and processed >= max_rows\<close>: \<^verbatim>\<open>None\<close> and \<^verbatim>\<open>0\<close> are falsy.\<close>

definition cap_reached :: "int option \<Rightarrow> nat \<Rightarrow> bool" where
  "cap_reached max_rows p =
     (case max_rows of None \<Rightarrow> False | Some m \<Rightarrow> m \<noteq> 0 \<and> m \<le> int p)"

text \<open>
  \<^verbatim>\<open>ins, upd = self._commit_batch(pending_ops); inserted += ins; updated += upd\<close>.
  The list is not cleared here.
\<close>

definition commit_pending :: "'t env \<Rightarrow> 't run_state \<Rightarrow> py_error + 't run_state" where
  "commit_pending E st =
     (case commit_batch (rejects E) (bulk_order E) (coll st) (pending_ops st) of
        Inl e \<Rightarrow> Inl e
      | Inr (s', (ins, upd), warned) \<Rightarrow>
          Inr (st\<lparr> coll := s',
                   inserted := inserted st + ins,
                   updated := updated st + upd,
                   commits := commits st @ [pending_ops st],
                   warnings := warnings st + (if warned then 1 else 0) \<rparr>))"

text \<open>
  The body of the loop after the cap test: transform the row, count a skip, or append
  the upsert request, commit and clear the list once it has reached the batch size,
  and count the row.
\<close>

definition process_row :: "'t env \<Rightarrow> int \<Rightarrow> raw_row \<Rightarrow> 't run_state \<Rightarrow> py_error + 't run_state" where
  "process_row E batch_size row st =
     (case clean_row (fromisoformat E) (utcnow E (processed st)) row of
        Inl e \<Rightarrow> Inl e
      | Inr None \<Rightarrow> Inr (st\<lparr> skipped := skipped st + 1, processed := processed st + 1 \<rparr>)
      | Inr (Some doc) \<Rightarrow>
          (let st2 = st\<lparr> pending_ops := pending_ops st @ [upsert_op doc] \<rparr>
           in case (if batch_size \<le> int (length (pending_ops st2))
                    then (case commit_pending E st2 of
                            Inl e \<Rightarrow> Inl e
                          | Inr st3 \<Rightarrow> Inr (st3\<lparr> pending_ops := [] \<rparr>))
                    else Inr st2) of
                Inl e \<Rightarrow> Inl e
              | Inr st4 \<Rightarrow> Inr (st4\<lparr> processed := processed st4 + 1 \<rparr>)))"

text \<open>
  The \<^verbatim>\<open>for\<close> loop over the reader. The row is taken from the reader before the cap is
  tested; \<^verbatim>\<open>break\<close> leaves the loop with the state as it is.
\<close>

fun run_loop ::
  "'t env \<Rightarrow> int option \<Rightarrow> int \<Rightarrow> raw_row list \<Rightarrow> 't run_state \<Rightarrow> py_error + 't run_state" where
  "run_loop E max_rows batch_size [] st = Inr st"
| "run_loop E max_rows batch_size (row # rest) st =
     (let st1 = st\<lparr> rows_read := rows_read st + 1 \<rparr>
      in if cap_reached max_rows (processed st1) then Inr st1
         else (case process_row E batch_size row st1 of
                 Inl e \<Rightarrow> Inl e
               | Inr st' \<Rightarrow> run_loop E max_rows batch_size rest st'))"

text \<open>The loop, then the final flush (\<^verbatim>\<open>if pending_ops:\<close>), on the rows of a reader.\<close>

definition run_rows ::
  "'t env \<Rightarrow> int option \<Rightarrow> int \<Rightarrow> raw_row list \<Rightarrow> 't store \<Rightarrow> py_error + 't run_state" where
  "run_rows E max_rows batch_size rows s =
     (case run_loop E max_rows batch_size rows (init_state s) of
        Inl e \<Rightarrow> Inl e
      | Inr st \<Rightarrow> if pending_ops st \<noteq> [] then commit_pending E st else Inr st)"

text \<open>\<^verbatim>\<open>run\<close>: the fetch with its default arguments, then the loop and the flush.\<close>

definition run ::
  "'t env \<Rightarrow> (nat \<Rightarrow> raw_row list option) \<Rightarrow> int option \<Rightarrow> int \<Rightarrow> 't store
     \<Rightarrow> py_error + 't run_state" where
  "run E net max_rows batch_size s =
     (case fetch_csv net 3 5 of
        (evs, Inl e) \<Rightarrow> Inl e
      | (evs, Inr rows) \<Rightarrow> run_rows E max_rows batch_size rows s)"

section \<open>Notions used to state the properties\<close>

text \<open>Whether \<^verbatim>\<open>_clean_row\<close> raises on a row; this depends on neither parser nor clock.\<close>

definition row_raises :: "raw_row \<Rightarrow> bool" where
  "row_raises row = isl (clean_row (\<lambda>s. None :: unit option) () row)"

text \<open>
  The rows that the loop processes when it starts with \<open>i\<close> rows already processed, and
  the documents accepted from rows numbered from \<open>i\<close>.
\<close>

definition capped :: "int option \<Rightarrow> nat \<Rightarrow> 'a list \<Rightarrow> 'a list" where
  "capped max_rows i rows =
     (case max_rows of
        None \<Rightarrow> rows
      | Some m \<Rightarrow> if m = 0 then rows else take (nat m - i) rows)"

fun accepted_docs :: "'t env \<Rightarrow> nat \<Rightarrow> raw_row list \<Rightarrow> 't document list" where
  "accepted_docs E i [] = []"
| "accepted_docs E i (row # rest) =
     (case clean_row (fromisoformat E) (utcnow E i) row of
        Inr (Some d) \<Rightarrow> d # accepted_docs E (Suc i) rest
      | _ \<Rightarrow> accepted_docs E (Suc i) rest)"

text \<open>
  The length at which the pending list is committed: the batch size, and 1 when the
  batch size is below 1 (the test \<^verbatim>\<open>len(pending_ops) >= batch_size\<close> then holds after
  every append).
\<close>

definition batch_len :: "int \<Rightarrow> nat" where
  "batch_len batch_size = nat (max 1 batch_size)"

text \<open>A list cut into consecutive pieces of \<open>n\<close> elements, the last one possibly shorter.\<close>

function chunks :: "nat \<Rightarrow> 'a list \<Rightarrow> 'a list list" where
  "chunks n xs = (if n = 0 \<or> xs = [] then [] else take n xs # chunks n (drop n xs))"
  by pat_completeness auto
termination
  by (relation "measure (\<lambda>(n, xs). length xs)") auto

declare chunks.simps [simp del]

text \<open>The server performs every request of a bulk write once, in some order.\<close>

definition rearranges :: "'t env \<Rightarrow> bool" where
  "rearranges E = (\<forall>s ws. mset (bulk_order E s ws) = mset ws)"

text \<open>The key that a request filters on.\<close>

fun key_of :: "'t write_op \<Rightarrow> string" where
  "key_of (UpdateOne k sets ups) = k"
| "key_of (DeleteOne k) = k"

text \<open>The field names of a document built by the transformer.\<close>

definition doc_field_names :: "string list" where
  "doc_field_names = [''phish_id'', ''url'', ''submission_time'', ''verified'', ''ingested_at'']"



text \<open>
  A collection keeps the frame of another when every document of the first is still
  there and agrees with it on every field that the transformer does not produce.
  A batch holds upserts only when each request is one built from a document.
\<close>

definition frame_kept :: "'t store \<Rightarrow> 't store \<Rightarrow> bool" where
  "frame_kept s s' =
     (\<forall>k old. s k = Some old \<longrightarrow>
        (\<exists>new. s' k = Some new \<and> (\<forall>f. f \<notin> set doc_field_names \<longrightarrow> new f = old f)))"

definition upserts_only :: "'t write_op list \<Rightarrow> bool" where
  "upserts_only ws = (\<forall>w \<in> set ws. \<exists>d. w = upsert_op d)"

text \<open>
  The effect of a list of requests when no write fails: the collection after them and
  their contributions to the two counts; a field of a stored document; documents equal
  up to \<^verbatim>\<open>ingested_at\<close>.
\<close>

fun store_after :: "'t store \<Rightarrow> 't write_op list \<Rightarrow> 't store" where
  "store_after s [] = s"
| "store_after s (w # ws) = store_after (fst (apply_op s w)) ws"

fun upserted_by :: "'t store \<Rightarrow> 't write_op list \<Rightarrow> nat" where
  "upserted_by s [] = 0"
| "upserted_by s (w # ws) = fst (snd (apply_op s w)) + upserted_by (fst (apply_op s w)) ws"

fun matched_by :: "'t store \<Rightarrow> 't write_op list \<Rightarrow> nat" where
  "matched_by s [] = 0"
| "matched_by s (w # ws) = snd (snd (apply_op s w)) + matched_by (fst (apply_op s w)) ws"

definition field_of :: "'t store \<Rightarrow> string \<Rightarrow> string \<Rightarrow> 't field_value option" where
  "field_of s k f = (case s k of None \<Rightarrow> None | Some doc \<Rightarrow> doc f)"

definition same_but_time :: "'t document \<Rightarrow> 't document \<Rightarrow> bool" where
  "same_but_time d1 d2 =
     (phish_id d2 = phish_id d1 \<and> url d2 = url d1
      \<and> submission_time d2 = submission_time d1 \<and> verified d2 = verified d1)"

text \<open>
  The document that an upsert for the key \<open>k\<close> starts from: the stored one, or the
  filter's field when there is none. A run state is in step with the collection \<open>s0\<close>
  it started from when the collection is \<open>s0\<close> changed by the requests committed so
  far: the documents are those of \<open>s0\<close> and of the committed keys, a key that was not
  committed has its document of \<open>s0\<close>, a committed key (when the committed keys are
  pairwise distinct) has its starting document overwritten by its request, and when
  all committed keys were already in \<open>s0\<close> nothing was inserted and every request
  counted as updated.
\<close>

definition doc_base :: "'t store \<Rightarrow> string \<Rightarrow> 't fields" where
  "doc_base s k = (case s k of None \<Rightarrow> [''phish_id'' \<mapsto> VStr k] | Some old \<Rightarrow> old)"

definition tracks :: "'t store \<Rightarrow> 't run_state \<Rightarrow> bool" where
  "tracks s0 st =
     (upserts_only (concat (commits st)) \<and> upserts_only (pending_ops st)
      \<and> dom (coll st) = dom s0 \<union> key_of ` set (concat (commits st))
      \<and> (\<forall>k. k \<notin> key_of ` set (concat (commits st)) \<longrightarrow> coll st k = s0 k)
      \<and> (distinct (map key_of (concat (commits st))) \<longrightarrow>
           (\<forall>d. upsert_op d \<in> set (concat (commits st)) \<longrightarrow>
              coll st (phish_id d) = Some (doc_base s0 (phish_id d) ++ map_of (set_doc d))))
      \<and> (key_of ` set (concat (commits st)) \<subseteq> dom s0 \<longrightarrow>
           inserted st = 0 \<and> updated st = length (concat (commits st))))"

section \<open>Example data\<close>

text \<open>
  A parser that accepts one timestamp, a clock that reads \<open>100 + i\<close> at row \<open>i\<close>, and a
  server without write errors that performs the requests in list order; a second clock
  for a later run; a server that rejects the key \<open>''p02''\<close>.
\<close>

definition ex_env :: "nat env" where
  "ex_env =
     \<lparr> fromisoformat = (\<lambda>s. if s = ''2024-01-01T00:00:00'' then Some 1 else None),
       utcnow = (\<lambda>i. 100 + i),
       rejects = (\<lambda>s w. False),
       bulk_order = (\<lambda>s ws. ws) \<rparr>"

definition ex_env_later :: "nat env" where
  "ex_env_later = ex_env\<lparr> utcnow := (\<lambda>i. 200 + i) \<rparr>"

definition ex_env_rejecting :: "nat env" where
  "ex_env_rejecting =
     ex_env\<lparr> rejects := (\<lambda>s w. case w of UpdateOne k sets ups \<Rightarrow> k = ''p02'' | DeleteOne k \<Rightarrow> False) \<rparr>"

text \<open>A complete line, and lines with fewer cells than the header has columns.\<close>

definition ex_row :: "string \<Rightarrow> raw_row" where
  "ex_row k =
     [''phish_id'' \<mapsto> PyStr k, ''url'' \<mapsto> PyStr ''http://a.example/'',
      ''submission_time'' \<mapsto> PyStr ''2024-01-01T00:00:00'', ''verified'' \<mapsto> PyStr ''yes'']"

definition two_cell_row :: raw_row where
  "two_cell_row =
     [''phish_id'' \<mapsto> PyStr ''1'', ''url'' \<mapsto> PyStr ''http://a.example/'',
      ''submission_time'' \<mapsto> PyNone, ''verified'' \<mapsto> PyNone]"

definition three_cell_row :: raw_row where
  "three_cell_row =
     [''phish_id'' \<mapsto> PyStr ''1'', ''url'' \<mapsto> PyStr ''http://a.example/'',
      ''submission_time'' \<mapsto> PyStr ''not a date'', ''verified'' \<mapsto> PyNone]"

definition blank_cell_row :: raw_row where
  "blank_cell_row =
     [''phish_id'' \<mapsto> PyStr '' '', ''url'' \<mapsto> PyNone,
      ''submission_time'' \<mapsto> PyNone, ''verified'' \<mapsto> PyNone]"

definition ten_rows :: "raw_row list" where
  "ten_rows = map ex_row [''p01'', ''p02'', ''p03'', ''p04'', ''p05'', ''p06'', ''p07'', ''p08'', ''p09'', ''p10'']"

definition five_rows :: "raw_row list" where
  "five_rows = map ex_row [''p01'', ''p02'', ''p03'', ''p04'', ''p05'']"

text \<open>A document and a batch of two upsert requests, the second one rejected.\<close>

definition ex_doc :: "string \<Rightarrow> nat document" where
  "ex_doc k =
     \<lparr> phish_id = k, url = ''http://a.example/'', submission_time = Some 1,
       verified = True, ingested_at = 100 \<rparr>"

definition ex_batch :: "nat write_op list" where
  "ex_batch = [upsert_op (ex_doc ''p01''), upsert_op (ex_doc ''p02'')]"

text \<open>A collection with one document that carries a field of its own.\<close>

definition ex_store :: "nat store" where
  "ex_store = [''p01'' \<mapsto> [''phish_id'' \<mapsto> VStr ''p01'', ''note'' \<mapsto> VStr ''keep'']]"

text \<open>
  The collection after a first run over one row, and after a second run over the same
  row, later, on the collection that the first run left.
\<close>

definition ex_first_run :: "nat store" where
  "ex_first_run =
     (case run_rows ex_env None 1000 [ex_row ''p01''] Map.empty of
        Inr st \<Rightarrow> coll st | Inl e \<Rightarrow> Map.empty)"

definition ex_second_run :: "nat store" where
  "ex_second_run =
     (case run_rows ex_env_later None 1000 [ex_row ''p01''] ex_first_run of
        Inr st \<Rightarrow> coll st | Inl e \<Rightarrow> Map.empty)"

text \<open>
  Two rows with the same identifier and different URLs; a later server that performs a
  batch in reverse order; the collection after a first run over the two rows and after
  a second run by that server.
\<close>

definition dup_row :: "string \<Rightarrow> raw_row" where
  "dup_row u = [''phish_id'' \<mapsto> PyStr ''p01'', ''url'' \<mapsto> PyStr u]"

definition dup_rows :: "raw_row list" where
  "dup_rows = map dup_row [''http://a.example/'', ''http://b.example/'']"

definition ex_env_reversing :: "nat env" where
  "ex_env_reversing = ex_env_later\<lparr> bulk_order := (\<lambda>s ws. rev ws) \<rparr>"

definition ex_dup_first_run :: "nat store" where
  "ex_dup_first_run =
     (case run_rows ex_env None 1000 dup_rows Map.empty of
        Inr st \<Rightarrow> coll st | Inl e \<Rightarrow> Map.empty)"

definition ex_dup_second_run :: "nat store" where
  "ex_dup_second_run =
     (case run_rows ex_env_reversing None 1000 dup_rows ex_dup_first_run of
        Inr st \<Rightarrow> coll st | Inl e \<Rightarrow> Map.empty)"


section \<open>The record transformer\<close>

lemma str_strip_Nil [simp]: "str_strip [] = []"
  by (simp add: str_strip_def)

lemma py_strip_get:
  assumes "row k \<noteq> Some PyNone"
  shows "py_strip (row_get row k (PyStr [])) =
           Inr (str_strip (case row k of Some (PyStr p) \<Rightarrow> p | _ \<Rightarrow> []))"
proof (cases "row k")
  case None
  then show ?thesis by (simp add: row_get_def)
next
  case (Some v)
  with assms show ?thesis by (cases v) (simp_all add: row_get_def)
qed

lemma py_lower_get:
  assumes "row k \<noteq> Some PyNone"
  shows "py_lower (row_get row k (PyStr [])) =
           Inr (str_lower (case row k of Some (PyStr p) \<Rightarrow> p | _ \<Rightarrow> []))"
proof (cases "row k")
  case None
  then show ?thesis by (simp add: row_get_def)
next
  case (Some v)
  with assms show ?thesis by (cases v) (simp_all add: row_get_def)
qed

lemma submitted_time_get:
  "(if truthy (row_get row k PyNone) then try_fromisoformat fromiso (row_get row k PyNone)
    else Inr None) =
   Inr (case row k of Some (PyStr t) \<Rightarrow> if t = [] then None else fromiso t | _ \<Rightarrow> None)"
proof (cases "row k")
  case None
  then show ?thesis by (simp add: row_get_def)
next
  case (Some v)
  then show ?thesis by (cases v) (simp_all add: row_get_def)
qed

text \<open>
  On rows whose required cells are strings or absent, a required cell that trims to
  the empty string makes the transformer return \<^verbatim>\<open>None\<close>.
\<close>

lemma clean_row_skip:
  assumes "row ''phish_id'' \<noteq> Some PyNone" and "row ''url'' \<noteq> Some PyNone"
    and "str_strip (case row ''phish_id'' of Some (PyStr p) \<Rightarrow> p | _ \<Rightarrow> []) = []
         \<or> str_strip (case row ''url'' of Some (PyStr u) \<Rightarrow> u | _ \<Rightarrow> []) = []"
  shows "clean_row fromiso now row = Inr None"
  unfolding clean_row_def
  using assms by (simp add: py_strip_get [of row "''phish_id''"] py_strip_get [of row "''url''"])

text \<open>
  On rows whose required cells are strings with a non-empty trimmed value and whose
  \<^verbatim>\<open>verified\<close> cell is a string or absent, the transformer returns the document.
\<close>

lemma clean_row_accept:
  assumes "row ''phish_id'' = Some (PyStr p)" and "str_strip p \<noteq> []"
    and "row ''url'' = Some (PyStr u)" and "str_strip u \<noteq> []"
    and "row ''verified'' \<noteq> Some PyNone"
  shows "clean_row fromiso now row =
           Inr (Some \<lparr> phish_id = str_strip p, url = str_strip u,
                        submission_time =
                          (case row ''submission_time'' of
                             Some (PyStr t) \<Rightarrow> if t = [] then None else fromiso t
                           | _ \<Rightarrow> None),
                        verified =
                          (str_lower (case row ''verified'' of Some (PyStr v) \<Rightarrow> v | _ \<Rightarrow> [])
                             \<in> {''yes'', ''y'', ''true''}),
                        ingested_at = now \<rparr>)"
proof -
  have a: "py_strip (row_get row ''phish_id'' (PyStr [])) = Inr (str_strip p)"
    using assms(1) by (simp add: row_get_def)
  have b: "py_strip (row_get row ''url'' (PyStr [])) = Inr (str_strip u)"
    using assms(3) by (simp add: row_get_def)
  have c: "py_lower (row_get row ''verified'' (PyStr [])) =
             Inr (str_lower (case row ''verified'' of Some (PyStr v) \<Rightarrow> v | _ \<Rightarrow> []))"
    using assms(5) by (rule py_lower_get)
  show ?thesis
    unfolding clean_row_def submitted_time_get a b c using assms(2,4) by simp
qed

text \<open>The accepted tokens of the verification cell, whatever their case.\<close>

lemma verified_examples:
  "map (\<lambda>v. str_lower v \<in> {''yes'', ''y'', ''true''})
     [''Yes'', ''Y'', ''true'', ''TRUE'', ''no'', []]
   = [True, True, True, True, False, False]"
  by code_simp

text \<open>
  C8. The claim: the transformer never raises, whatever the row, null-valued optional
  cells included. On a line with two cells the reader sets \<^verbatim>\<open>verified\<close> to \<^verbatim>\<open>None\<close>;
  \<^verbatim>\<open>row.get("verified", "")\<close> then returns \<^verbatim>\<open>None\<close> and \<^verbatim>\<open>.lower()\<close> raises
  \<^verbatim>\<open>AttributeError\<close>.
\<close>

theorem clean_row_null_verified_raises:
  "clean_row fromiso now two_cell_row = Inl AttributeError"
  by (simp add: clean_row_def row_get_def two_cell_row_def str_strip_def is_space_def)

lemma clean_row_isl: "isl (clean_row fromiso now row) = row_raises row"
  unfolding row_raises_def clean_row_def submitted_time_get
  by (simp split: sum.splits)

section \<open>The reconciler and the loop body, unfolded\<close>

lemma commit_batch_nonempty:
  assumes "ws \<noteq> []"
  shows "commit_batch rej ord s ws =
           (case bulk_apply rej s (ord s ws) of
              (s', u, m, e) \<Rightarrow> Inr (s', (if e = 0 then (u, m) else (0, 0)), e \<noteq> 0))"
  using assms by (simp add: commit_batch_def bulk_write_def split: prod.splits)

lemma commit_pending_nonempty:
  assumes "pending_ops st \<noteq> []"
  shows "commit_pending E st =
           (case bulk_apply (rejects E) (coll st)
                   (bulk_order E (coll st) (pending_ops st)) of
              (s', u, m, e) \<Rightarrow>
                Inr (st\<lparr> coll := s',
                         inserted := inserted st + (if e = 0 then u else 0),
                         updated := updated st + (if e = 0 then m else 0),
                         commits := commits st @ [pending_ops st],
                         warnings := warnings st + (if e = 0 then 0 else 1) \<rparr>))"
  using assms by (simp add: commit_pending_def commit_batch_nonempty split: prod.splits)

lemma process_row_eq:
  "process_row E bs row st =
     (case clean_row (fromisoformat E) (utcnow E (processed st)) row of
        Inl e \<Rightarrow> Inl e
      | Inr None \<Rightarrow> Inr (st\<lparr> skipped := skipped st + 1, processed := processed st + 1 \<rparr>)
      | Inr (Some d) \<Rightarrow>
          (let p = pending_ops st @ [upsert_op d]
           in if bs \<le> int (length p)
              then (case bulk_apply (rejects E) (coll st) (bulk_order E (coll st) p) of
                      (s', u, m, e) \<Rightarrow>
                        Inr (st\<lparr> coll := s', pending_ops := [],
                                 inserted := inserted st + (if e = 0 then u else 0),
                                 updated := updated st + (if e = 0 then m else 0),
                                 processed := processed st + 1,
                                 commits := commits st @ [p],
                                 warnings := warnings st + (if e = 0 then 0 else 1) \<rparr>))
              else Inr (st\<lparr> pending_ops := p, processed := processed st + 1 \<rparr>)))"
  by (simp add: process_row_def commit_pending_nonempty Let_def
           split: sum.splits option.splits prod.splits)

lemma run_rows_single_raise:
  assumes "clean_row (fromisoformat E) (utcnow E 0) row = Inl e"
  shows "run_rows E None bs [row] s = Inl e"
  using assms by (simp add: run_rows_def init_state_def cap_reached_def process_row_eq)

text \<open>
  On a row that the transformer skips, the loop body counts the row as skipped and as
  processed and changes nothing else.
\<close>

lemma process_row_skip:
  assumes "clean_row (fromisoformat E) (utcnow E (processed st)) row = Inr None"
  shows "process_row E bs row st =
           Inr (st\<lparr> skipped := skipped st + 1, processed := processed st + 1 \<rparr>)"
  using assms by (simp add: process_row_eq)

section \<open>Invariants of the loop\<close>

lemma capped_reached: "cap_reached mr p \<Longrightarrow> capped mr p xs = []"
  by (auto simp: cap_reached_def capped_def split: option.splits)

lemma capped_Cons:
  "\<not> cap_reached mr p \<Longrightarrow> capped mr p (x # xs) = x # capped mr (Suc p) xs"
proof (cases mr)
  case None
  then show ?thesis by (simp add: capped_def)
next
  case (Some m)
  assume n: "\<not> cap_reached mr p"
  show ?thesis
  proof (cases "m = 0")
    case True
    with Some show ?thesis by (simp add: capped_def)
  next
    case False
    with n Some have "p < nat m" by (simp add: cap_reached_def)
    then have "nat m - p = Suc (nat m - Suc p)" by simp
    with Some False show ?thesis by (simp add: capped_def)
  qed
qed

lemma run_loop_Cons_Inr:
  assumes "run_loop E mr bs (row # rest) st = Inr st'"
  obtains (break) "cap_reached mr (processed st)"
      and "st' = st\<lparr> rows_read := rows_read st + 1 \<rparr>"
    | (step) st2 where "\<not> cap_reached mr (processed st)"
      and "process_row E bs row (st\<lparr> rows_read := rows_read st + 1 \<rparr>) = Inr st2"
      and "run_loop E mr bs rest st2 = Inr st'"
  using assms by (auto simp: Let_def split: if_splits sum.splits)

lemma process_row_Inr:
  assumes "process_row E bs row st = Inr st2"
  obtains (skip) "clean_row (fromisoformat E) (utcnow E (processed st)) row = Inr None"
      and "st2 = st\<lparr> skipped := skipped st + 1, processed := processed st + 1 \<rparr>"
    | (keep) d where "clean_row (fromisoformat E) (utcnow E (processed st)) row = Inr (Some d)"
      and "\<not> bs \<le> int (length (pending_ops st)) + 1"
      and "st2 = st\<lparr> pending_ops := pending_ops st @ [upsert_op d],
                      processed := processed st + 1 \<rparr>"
    | (commit) d s' u m e where
          "clean_row (fromisoformat E) (utcnow E (processed st)) row = Inr (Some d)"
      and "bs \<le> int (length (pending_ops st)) + 1"
      and "bulk_apply (rejects E) (coll st)
             (bulk_order E (coll st) (pending_ops st @ [upsert_op d])) = (s', u, m, e)"
      and "st2 = st\<lparr> coll := s', pending_ops := [],
                      inserted := inserted st + (if e = 0 then u else 0),
                      updated := updated st + (if e = 0 then m else 0),
                      processed := processed st + 1,
                      commits := commits st @ [pending_ops st @ [upsert_op d]],
                      warnings := warnings st + (if e = 0 then 0 else 1) \<rparr>"
  using assms unfolding process_row_eq
  by (auto simp: Let_def split: sum.splits option.splits if_splits prod.splits)

lemma process_row_counts:
  assumes "process_row E bs row st = Inr st2"
  shows "processed st2 = processed st + 1" and "rows_read st2 = rows_read st"
  using assms by (cases rule: process_row_Inr; simp)+

lemma run_loop_counts:
  assumes "run_loop E mr bs rows st = Inr st'"
  shows "processed st' = processed st + length (capped mr (processed st) rows)
         \<and> rows_read st' =
             rows_read st + min (length rows) (length (capped mr (processed st) rows) + 1)"
  using assms
proof (induction rows arbitrary: st)
  case Nil
  then show ?case by (simp add: capped_def split: option.splits)
next
  case (Cons row rest)
  from Cons.prems show ?case
  proof (cases rule: run_loop_Cons_Inr)
    case break
    then show ?thesis by (simp add: capped_reached)
  next
    case (step st2)
    from process_row_counts [OF step(2)]
    have p: "processed st2 = Suc (processed st)" and r: "rows_read st2 = rows_read st + 1"
      by simp_all
    from Cons.IH [OF step(3)] show ?thesis
      by (simp add: capped_Cons [OF step(1)] p r)
  qed
qed

lemma commit_pending_counts:
  assumes "commit_pending E st = Inr st'"
  shows "processed st' = processed st" and "rows_read st' = rows_read st"
    and "skipped st' = skipped st" and "pending_ops st' = pending_ops st"
    and "commits st' = commits st @ [pending_ops st]"
  using assms by (auto simp: commit_pending_def split: sum.splits prod.splits)

lemma run_rows_Inr:
  assumes "run_rows E mr bs rows s = Inr st"
  obtains (flush) st1 where "run_loop E mr bs rows (init_state s) = Inr st1"
      and "pending_ops st1 \<noteq> []" and "commit_pending E st1 = Inr st"
    | (clean) "run_loop E mr bs rows (init_state s) = Inr st" and "pending_ops st = []"
  using assms by (auto simp: run_rows_def split: sum.splits if_splits)

lemma run_rows_counts:
  assumes "run_rows E mr bs rows s = Inr st"
  shows "processed st = length (capped mr 0 rows)"
    and "rows_read st = min (length rows) (length (capped mr 0 rows) + 1)"
proof -
  have "processed st = length (capped mr 0 rows)
        \<and> rows_read st = min (length rows) (length (capped mr 0 rows) + 1)"
    using assms
  proof (cases rule: run_rows_Inr)
    case (flush st1)
    from run_loop_counts [OF flush(1)] commit_pending_counts(1,2) [OF flush(3)]
    show ?thesis by (simp add: init_state_def)
  next
    case clean
    from run_loop_counts [OF clean(1)] show ?thesis by (simp add: init_state_def)
  qed
  then show "processed st = length (capped mr 0 rows)"
    and "rows_read st = min (length rows) (length (capped mr 0 rows) + 1)"
    by simp_all
qed

text \<open>Every processed row was skipped or became a request, pending or committed.\<close>

lemma process_row_balance:
  assumes "process_row E bs row st = Inr st2"
    and "processed st = skipped st + length (concat (commits st)) + length (pending_ops st)"
  shows "processed st2 = skipped st2 + length (concat (commits st2)) + length (pending_ops st2)"
  using assms by (cases rule: process_row_Inr) simp_all

lemma run_loop_balance:
  assumes "run_loop E mr bs rows st = Inr st'"
    and "processed st = skipped st + length (concat (commits st)) + length (pending_ops st)"
  shows "processed st' = skipped st' + length (concat (commits st')) + length (pending_ops st')"
  using assms
proof (induction rows arbitrary: st)
  case Nil
  then show ?case by simp
next
  case (Cons row rest)
  from Cons.prems(1) show ?case
  proof (cases rule: run_loop_Cons_Inr)
    case break
    with Cons.prems(2) show ?thesis by simp
  next
    case (step st2)
    have "processed st2 = skipped st2 + length (concat (commits st2)) + length (pending_ops st2)"
      using Cons.prems(2) by (intro process_row_balance [OF step(2)]) simp
    with Cons.IH [OF step(3)] show ?thesis by simp
  qed
qed

lemma run_rows_balance:
  assumes "run_rows E mr bs rows s = Inr st"
  shows "processed st = skipped st + length (concat (commits st))"
  using assms
proof (cases rule: run_rows_Inr)
  case (flush st1)
  from run_loop_balance [OF flush(1)] commit_pending_counts [OF flush(3)]
  show ?thesis by (simp add: init_state_def)
next
  case clean
  from run_loop_balance [OF clean(1)] clean(2) show ?thesis by (simp add: init_state_def)
qed

lemma run_loop_zero_cap:
  "run_loop E (Some 0) bs rows st = run_loop E None bs rows st"
  by (induction rows arbitrary: st) (simp_all add: cap_reached_def Let_def split: sum.splits)

section \<open>Rows with null-valued cells\<close>

text \<open>
  C2. The claim: a row whose \<^verbatim>\<open>phish_id\<close> or \<^verbatim>\<open>url\<close> is empty after trimming, or
  missing, makes the transformer return \<^verbatim>\<open>None\<close>, and the run counts it as skipped and
  processed. On a line that holds one blank cell the reader sets \<^verbatim>\<open>phish_id\<close> to the
  blank string and \<^verbatim>\<open>url\<close> to \<^verbatim>\<open>None\<close>; \<^verbatim>\<open>row.get("url", "")\<close> returns \<^verbatim>\<open>None\<close>,
  \<^verbatim>\<open>.strip()\<close> raises \<^verbatim>\<open>AttributeError\<close>, and the run ends with that error instead of
  counting a skip.
\<close>

theorem blank_line_aborts_run:
  "clean_row (fromisoformat E) (utcnow E 0) blank_cell_row = Inl AttributeError
   \<and> run_rows E None bs [blank_cell_row] s = Inl AttributeError"
proof -
  have "clean_row (fromisoformat E) (utcnow E 0) blank_cell_row = Inl AttributeError"
    by (simp add: clean_row_def row_get_def blank_cell_row_def)
  then show ?thesis
    by (simp add: run_rows_single_raise)
qed

text \<open>
  C7. The claim: a row whose trimmed \<^verbatim>\<open>phish_id\<close> and \<^verbatim>\<open>url\<close> are non-empty always
  becomes a document, with \<^verbatim>\<open>verified\<close> false when the verification cell is not one of
  the accepted tokens or is absent. On a line with three cells (identifier, URL and an
  unparseable timestamp) the reader sets \<^verbatim>\<open>verified\<close> to \<^verbatim>\<open>None\<close>, and the transformer
  raises \<^verbatim>\<open>AttributeError\<close> instead of returning a document.
\<close>

theorem short_line_yields_no_document:
  "clean_row fromiso now three_cell_row = Inl AttributeError"
  by (simp add: clean_row_def row_get_def three_cell_row_def str_strip_def is_space_def)

section \<open>The row cap\<close>

text \<open>
  C3, as the claim states it: with a cap of 3 and ten valid rows, rows 4 to 10 are never
  read from the source. The \<^verbatim>\<open>for\<close> statement takes the fourth row from the reader
  before the cap is tested, so four rows are read.
\<close>

theorem row_cap_reads_one_more:
  "map_sum id rows_read (run_rows ex_env (Some 3) 1000 ten_rows Map.empty) = Inr 4"
  by code_simp

text \<open>
  C3, amended. In a run with a positive cap that returns, the number of rows processed
  (skipped or accepted) is the smaller of the cap and the number of rows; the reader
  yields one row more than the cap when it has one, which is discarded unprocessed, and
  no row beyond that one is read.
\<close>

theorem row_cap_ceiling:
  assumes "0 < m" and "run_rows E (Some m) bs rows s = Inr st"
  shows "processed st = min (nat m) (length rows)
         \<and> processed st = skipped st + length (concat (commits st))
         \<and> rows_read st = min (nat m + 1) (length rows)"
proof -
  from assms(1) have c: "length (capped (Some m) 0 rows) = min (nat m) (length rows)"
    by (simp add: capped_def min.commute)
  from run_rows_counts [OF assms(2)] run_rows_balance [OF assms(2)] show ?thesis
    unfolding c by (auto simp: min_def)
qed

theorem row_cap_ceiling_witness:
  "\<exists>st. run_rows ex_env (Some 3) 1000 ten_rows Map.empty = Inr st
        \<and> processed st = 3 \<and> skipped st = 0 \<and> rows_read st = 4"
proof -
  have "map_sum id skipped (run_rows ex_env (Some 3) 1000 ten_rows Map.empty) = Inr 0"
    by code_simp
  then obtain st where st: "run_rows ex_env (Some 3) 1000 ten_rows Map.empty = Inr st"
    and sk: "skipped st = 0"
    by (cases "run_rows ex_env (Some 3) 1000 ten_rows Map.empty") auto
  have "(0::int) < 3" by simp
  from row_cap_ceiling [OF this st] sk show ?thesis
    using st by (simp add: ten_rows_def)
qed

text \<open>
  C10. A run with \<^verbatim>\<open>max_rows = 0\<close> is the run with \<^verbatim>\<open>max_rows = None\<close>: the cap test is
  off, and a run that returns has processed and read every row of the reader.
\<close>

theorem zero_cap_is_unlimited:
  "run E net (Some 0) bs s = run E net None bs s
   \<and> run_rows E (Some 0) bs rows s = run_rows E None bs rows s
   \<and> (\<forall>st. run_rows E (Some 0) bs rows s = Inr st
         \<longrightarrow> processed st = length rows \<and> rows_read st = length rows)"
proof -
  have r: "run_rows E (Some 0) bs rows' s = run_rows E None bs rows' s" for rows'
    by (simp add: run_rows_def run_loop_zero_cap)
  have "run E net (Some 0) bs s = run E net None bs s"
    by (simp add: run_def r split: prod.splits sum.splits)
  moreover have "processed st = length rows \<and> rows_read st = length rows"
    if "run_rows E (Some 0) bs rows s = Inr st" for st
    using run_rows_counts [OF that] by (simp add: capped_def)
  ultimately show ?thesis using r by blast
qed

theorem zero_cap_is_unlimited_witness:
  "run_rows ex_env (Some 0) 1000 ten_rows Map.empty = run_rows ex_env None 1000 ten_rows Map.empty
   \<and> map_sum id processed (run_rows ex_env (Some 0) 1000 ten_rows Map.empty) = Inr 10
   \<and> map_sum id rows_read (run_rows ex_env (Some 0) 1000 ten_rows Map.empty) = Inr 10"
proof -
  have "map_sum id skipped (run_rows ex_env (Some 0) 1000 ten_rows Map.empty) = Inr 0"
    by code_simp
  then obtain st where st: "run_rows ex_env (Some 0) 1000 ten_rows Map.empty = Inr st"
    by (cases "run_rows ex_env (Some 0) 1000 ten_rows Map.empty") auto
  from zero_cap_is_unlimited [of ex_env undefined 1000 Map.empty ten_rows] st
  show ?thesis by (simp add: ten_rows_def)
qed

section \<open>The fetcher\<close>









section \<open>Batches\<close>

lemma chunks_Nil [simp]: "chunks n [] = []"
  by (simp add: chunks.simps)

lemma chunks_short:
  assumes "xs \<noteq> []" and "length xs \<le> n"
  shows "chunks n xs = [xs]"
proof -
  from assms have "0 < n" by (cases xs) auto
  with assms show ?thesis by (subst chunks.simps) simp
qed

lemma chunks_full:
  assumes "length p = n" and "0 < n"
  shows "chunks n (p @ xs) = p # chunks n xs"
  using assms by (subst chunks.simps) auto

lemma run_loop_commits:
  assumes "run_loop E mr bs rows st = Inr st'"
    and "length (pending_ops st) < batch_len bs"
  shows "length (pending_ops st') < batch_len bs
         \<and> commits st' @ chunks (batch_len bs) (pending_ops st') =
             commits st @ chunks (batch_len bs)
               (pending_ops st
                  @ map upsert_op (accepted_docs E (processed st) (capped mr (processed st) rows)))"
  using assms
proof (induction rows arbitrary: st)
  case Nil
  then show ?case by (simp add: capped_def split: option.splits)
next
  case (Cons row rest)
  let ?st1 = "st\<lparr> rows_read := rows_read st + 1 \<rparr>"
  from Cons.prems(1) show ?case
  proof (cases rule: run_loop_Cons_Inr)
    case break
    with Cons.prems(2) show ?thesis by (simp add: capped_reached)
  next
    case (step st2)
    note cc = capped_Cons [OF step(1)]
    from step(2) show ?thesis
    proof (cases rule: process_row_Inr)
      case skip
      then have a: "accepted_docs E (processed st) (row # capped mr (Suc (processed st)) rest)
                    = accepted_docs E (Suc (processed st)) (capped mr (Suc (processed st)) rest)"
        by simp
      have "length (pending_ops st2) < batch_len bs" using skip(2) Cons.prems(2) by simp
      from Cons.IH [OF step(3) this] show ?thesis
        unfolding cc a using skip(2) by simp
    next
      case (keep d)
      then have a: "accepted_docs E (processed st) (row # capped mr (Suc (processed st)) rest)
                    = d # accepted_docs E (Suc (processed st)) (capped mr (Suc (processed st)) rest)"
        by simp
      have "length (pending_ops st2) < batch_len bs"
        using keep(2,3) by (simp add: batch_len_def)
      from Cons.IH [OF step(3) this] show ?thesis
        unfolding cc a using keep(3) by simp
    next
      case (commit d s' u m e)
      then have a: "accepted_docs E (processed st) (row # capped mr (Suc (processed st)) rest)
                    = d # accepted_docs E (Suc (processed st)) (capped mr (Suc (processed st)) rest)"
        by simp
      have len: "length (pending_ops st @ [upsert_op d]) = batch_len bs"
        using commit(2) Cons.prems(2) by (simp add: batch_len_def max_def split: if_splits)
      have pos: "0 < batch_len bs" by (simp add: batch_len_def)
      have "length (pending_ops st2) < batch_len bs" using commit(4) pos by simp
      from Cons.IH [OF step(3) this]
      have "length (pending_ops st') < batch_len bs"
        and "commits st' @ chunks (batch_len bs) (pending_ops st') =
             (commits st @ [pending_ops st @ [upsert_op d]]) @ chunks (batch_len bs)
               (map upsert_op (accepted_docs E (Suc (processed st))
                  (capped mr (Suc (processed st)) rest)))"
        using commit(4) by simp_all
      moreover have "chunks (batch_len bs) (pending_ops st @ upsert_op d #
               map upsert_op (accepted_docs E (Suc (processed st))
                  (capped mr (Suc (processed st)) rest)))
            = (pending_ops st @ [upsert_op d]) # chunks (batch_len bs)
               (map upsert_op (accepted_docs E (Suc (processed st))
                  (capped mr (Suc (processed st)) rest)))"
        using chunks_full [OF len pos] by simp
      ultimately show ?thesis
        unfolding cc a by simp
    qed
  qed
qed

lemma run_rows_commits:
  assumes "run_rows E mr bs rows s = Inr st"
  shows "commits st = chunks (batch_len bs) (map upsert_op (accepted_docs E 0 (capped mr 0 rows)))"
  using assms
proof (cases rule: run_rows_Inr)
  case (flush st1)
  have z: "length (pending_ops (init_state s)) < batch_len bs"
    by (simp add: init_state_def batch_len_def)
  from run_loop_commits [OF flush(1) z]
  have l: "length (pending_ops st1) < batch_len bs"
    and c: "commits st1 @ chunks (batch_len bs) (pending_ops st1) =
            chunks (batch_len bs) (map upsert_op (accepted_docs E 0 (capped mr 0 rows)))"
    by (simp_all add: init_state_def)
  from l flush(2) have "chunks (batch_len bs) (pending_ops st1) = [pending_ops st1]"
    by (intro chunks_short) simp_all
  with c commit_pending_counts(5) [OF flush(3)] show ?thesis by simp
next
  case clean
  have z: "length (pending_ops (init_state s)) < batch_len bs"
    by (simp add: init_state_def batch_len_def)
  from run_loop_commits [OF clean(1) z] clean(2) show ?thesis
    by (simp add: init_state_def)
qed

text \<open>
  C4. In a run that returns, the calls of
  \<^verbatim>\<open>_commit_batch\<close> receive, in order, the upsert requests of the accepted rows cut into
  consecutive batches of the batch size (of 1 when the batch size is below 1), the last
  one shorter when the requests do not fill it: a commit happens exactly when the
  pending list reaches the batch size, the list is then cleared, and what remains at
  the end is committed by the final flush. With batch size 2 and five accepted rows
  the batches have sizes 2, 2, 1.
\<close>

theorem batches_are_chunks:
  assumes "run_rows E mr bs rows s = Inr st"
  shows "commits st = chunks (batch_len bs) (map upsert_op (accepted_docs E 0 (capped mr 0 rows)))
         \<and> (1 \<le> bs \<longrightarrow> batch_len bs = nat bs)"
  using run_rows_commits [OF assms] by (simp add: batch_len_def)

theorem batches_are_chunks_witness:
  "\<exists>st. run_rows ex_env None 2 five_rows Map.empty = Inr st
        \<and> map length (commits st) = [2, 2, 1]"
proof -
  have "map_sum id skipped (run_rows ex_env None 2 five_rows Map.empty) = Inr 0"
    by code_simp
  then obtain st where st: "run_rows ex_env None 2 five_rows Map.empty = Inr st"
    by (cases "run_rows ex_env None 2 five_rows Map.empty") auto
  have "map length (chunks (batch_len 2)
          (map upsert_op (accepted_docs ex_env 0 (capped None 0 five_rows)))) = [2, 2, 1]"
    by code_simp
  with batches_are_chunks [OF st] st show ?thesis by simp
qed

section \<open>Runs that return\<close>

lemma process_row_returns:
  assumes "\<not> row_raises row"
  shows "\<exists>st2. process_row E bs row st = Inr st2"
proof -
  from assms have "\<not> isl (clean_row (fromisoformat E) (utcnow E (processed st)) row)"
    by (simp add: clean_row_isl)
  then obtain r where "clean_row (fromisoformat E) (utcnow E (processed st)) row = Inr r"
    by (cases "clean_row (fromisoformat E) (utcnow E (processed st)) row") auto
  then show ?thesis
    by (cases r) (auto simp: process_row_eq Let_def split: prod.splits)
qed

lemma process_row_no_raise:
  assumes "process_row E bs row st = Inr st2"
  shows "\<not> row_raises row"
proof -
  from assms have "\<not> isl (clean_row (fromisoformat E) (utcnow E (processed st)) row)"
    by (cases rule: process_row_Inr) simp_all
  then show ?thesis by (simp add: clean_row_isl)
qed

lemma run_loop_returns:
  assumes "\<forall>row \<in> set (capped mr (processed st) rows). \<not> row_raises row"
  shows "\<exists>st'. run_loop E mr bs rows st = Inr st'"
  using assms
proof (induction rows arbitrary: st)
  case Nil
  then show ?case by simp
next
  case (Cons row rest)
  show ?case
  proof (cases "cap_reached mr (processed st)")
    case True
    then show ?thesis by simp
  next
    case False
    note cc = capped_Cons [OF False]
    from Cons.prems have nr: "\<not> row_raises row"
      and rest: "\<forall>r \<in> set (capped mr (Suc (processed st)) rest). \<not> row_raises r"
      unfolding cc by simp_all
    from process_row_returns [OF nr] obtain st2
      where p: "process_row E bs row (st\<lparr>rows_read := rows_read st + 1\<rparr>) = Inr st2"
      by blast
    from process_row_counts(1) [OF p] have "processed st2 = Suc (processed st)" by simp
    with rest have "\<forall>r \<in> set (capped mr (processed st2) rest). \<not> row_raises r" by simp
    from Cons.IH [OF this] p False show ?thesis by (simp add: Let_def)
  qed
qed

lemma run_loop_no_raise:
  assumes "run_loop E mr bs rows st = Inr st'"
  shows "\<forall>row \<in> set (capped mr (processed st) rows). \<not> row_raises row"
  using assms
proof (induction rows arbitrary: st)
  case Nil
  then show ?case by (simp add: capped_def split: option.splits)
next
  case (Cons row rest)
  from Cons.prems show ?case
  proof (cases rule: run_loop_Cons_Inr)
    case break
    then show ?thesis by (simp add: capped_reached)
  next
    case (step st2)
    from process_row_counts(1) [OF step(2)] have "processed st2 = Suc (processed st)" by simp
    with Cons.IH [OF step(3)] process_row_no_raise [OF step(2)] show ?thesis
      by (simp add: capped_Cons [OF step(1)])
  qed
qed

lemma run_rows_returns:
  assumes "\<forall>row \<in> set (capped mr 0 rows). \<not> row_raises row"
  shows "\<exists>st. run_rows E mr bs rows s = Inr st"
proof -
  from assms have "\<forall>row \<in> set (capped mr (processed (init_state s)) rows). \<not> row_raises row"
    by (simp add: init_state_def)
  from run_loop_returns [OF this] obtain st1
    where l: "run_loop E mr bs rows (init_state s) = Inr st1" by blast
  show ?thesis
  proof (cases "pending_ops st1 = []")
    case True
    with l show ?thesis by (simp add: run_rows_def)
  next
    case False
    with l show ?thesis
      by (simp add: run_rows_def commit_pending_nonempty split: prod.splits)
  qed
qed

lemma run_rows_no_raise:
  assumes "run_rows E mr bs rows s = Inr st"
  shows "\<forall>row \<in> set (capped mr 0 rows). \<not> row_raises row"
  using assms
proof (cases rule: run_rows_Inr)
  case (flush st1)
  from run_loop_no_raise [OF flush(1)] show ?thesis by (simp add: init_state_def)
next
  case clean
  from run_loop_no_raise [OF clean(1)] show ?thesis by (simp add: init_state_def)
qed

section \<open>Write errors\<close>

text \<open>
  C6. When one or more writes of a committed batch fail, \<^verbatim>\<open>_commit_batch\<close> does not
  raise: it returns \<open>(0, 0)\<close> and prints the warning, the writes that succeeded stay
  in the collection, and the orchestrator goes on with the counters unchanged. Write
  errors never end a run: whatever the server rejects, a run over rows on which the
  transformer does not raise returns, has processed every row up to the cap, and has
  committed every batch.
\<close>

theorem partial_failure_absorbed:
  assumes "ws \<noteq> []"
    and "bulk_apply (rejects E) s (bulk_order E s ws) = (s', u, m, e)" and "0 < e"
  shows "commit_batch (rejects E) (bulk_order E) s ws = Inr (s', (0, 0), True)
         \<and> (\<forall>st. coll st = s \<and> pending_ops st = ws \<longrightarrow>
               commit_pending E st =
                 Inr (st\<lparr> coll := s', commits := commits st @ [ws],
                          warnings := warnings st + 1 \<rparr>))
         \<and> (\<forall>mr bs rows s0. (\<forall>row \<in> set (capped mr 0 rows). \<not> row_raises row) \<longrightarrow>
               (\<exists>st. run_rows E mr bs rows s0 = Inr st
                     \<and> processed st = length (capped mr 0 rows)
                     \<and> commits st =
                         chunks (batch_len bs)
                           (map upsert_op (accepted_docs E 0 (capped mr 0 rows)))))"
proof -
  from assms have a: "commit_batch (rejects E) (bulk_order E) s ws = Inr (s', (0, 0), True)"
    by (simp add: commit_batch_nonempty)
  have b: "commit_pending E st =
             Inr (st\<lparr> coll := s', commits := commits st @ [ws], warnings := warnings st + 1 \<rparr>)"
    if "coll st = s \<and> pending_ops st = ws" for st
    using that assms by (simp add: commit_pending_nonempty)
  have c: "\<exists>st. run_rows E mr bs rows s0 = Inr st
              \<and> processed st = length (capped mr 0 rows)
              \<and> commits st =
                  chunks (batch_len bs) (map upsert_op (accepted_docs E 0 (capped mr 0 rows)))"
    if "\<forall>row \<in> set (capped mr 0 rows). \<not> row_raises row" for mr bs rows s0
  proof -
    from run_rows_returns [OF that] obtain st where st: "run_rows E mr bs rows s0 = Inr st"
      by blast
    from run_rows_counts(1) [OF st] run_rows_commits [OF st] st show ?thesis by blast
  qed
  from a b c show ?thesis by blast
qed

theorem partial_failure_absorbed_witness:
  "commit_batch (rejects ex_env_rejecting) (bulk_order ex_env_rejecting) Map.empty ex_batch =
     Inr (fst (bulk_apply (rejects ex_env_rejecting) Map.empty ex_batch), (0, 0), True)
   \<and> (\<exists>st. run_rows ex_env_rejecting None 2 five_rows Map.empty = Inr st
          \<and> processed st = 5 \<and> map length (commits st) = [2, 2, 1]
          \<and> inserted st = 3 \<and> warnings st = 1)"
proof -
  have o: "bulk_order ex_env_rejecting Map.empty ex_batch = ex_batch"
    by (simp add: ex_env_rejecting_def ex_env_def)
  have ne: "ex_batch \<noteq> []" by (simp add: ex_batch_def)
  obtain s' u m e where
    b: "bulk_apply (rejects ex_env_rejecting) Map.empty ex_batch = (s', u, m, e)"
    by (cases "bulk_apply (rejects ex_env_rejecting) Map.empty ex_batch") auto
  have "snd (snd (snd (bulk_apply (rejects ex_env_rejecting) Map.empty ex_batch))) = 1"
    by code_simp
  with b have e: "0 < e" by simp
  from b o have b': "bulk_apply (rejects ex_env_rejecting) Map.empty
                       (bulk_order ex_env_rejecting Map.empty ex_batch) = (s', u, m, e)"
    by simp
  note t = partial_failure_absorbed [OF ne b' e]
  have ok: "\<forall>row \<in> set (capped None 0 five_rows). \<not> row_raises row"
    by code_simp
  from t ok obtain st where st: "run_rows ex_env_rejecting None 2 five_rows Map.empty = Inr st"
    and p: "processed st = length (capped None 0 five_rows)"
    and c: "commits st = chunks (batch_len 2)
              (map upsert_op (accepted_docs ex_env_rejecting 0 (capped None 0 five_rows)))"
    by blast
  have l: "length (capped None 0 five_rows) = 5" by code_simp
  have k: "map length (chunks (batch_len 2)
              (map upsert_op (accepted_docs ex_env_rejecting 0 (capped None 0 five_rows))))
           = [2, 2, 1]"
    by code_simp
  have i: "map_sum id inserted (run_rows ex_env_rejecting None 2 five_rows Map.empty) = Inr 3"
    and w: "map_sum id warnings (run_rows ex_env_rejecting None 2 five_rows Map.empty) = Inr 1"
    by code_simp+
  from t b have cb: "commit_batch (rejects ex_env_rejecting) (bulk_order ex_env_rejecting)
                       Map.empty ex_batch =
     Inr (fst (bulk_apply (rejects ex_env_rejecting) Map.empty ex_batch), (0, 0), True)"
    by simp
  from st p c l k i w have r: "run_rows ex_env_rejecting None 2 five_rows Map.empty = Inr st
          \<and> processed st = 5 \<and> map length (commits st) = [2, 2, 1]
          \<and> inserted st = 3 \<and> warnings st = 1"
    by simp
  show ?thesis
  proof (rule conjI)
    show "commit_batch (rejects ex_env_rejecting) (bulk_order ex_env_rejecting)
            Map.empty ex_batch =
     Inr (fst (bulk_apply (rejects ex_env_rejecting) Map.empty ex_batch), (0, 0), True)"
      by (rule cb)
    show "\<exists>st. run_rows ex_env_rejecting None 2 five_rows Map.empty = Inr st
          \<and> processed st = 5 \<and> map length (commits st) = [2, 2, 1]
          \<and> inserted st = 3 \<and> warnings st = 1"
      using r by (rule exI)
  qed
qed

section \<open>What a run leaves untouched\<close>

lemma frame_kept_refl: "frame_kept s s"
  by (simp add: frame_kept_def)

lemma frame_kept_trans:
  assumes "frame_kept s t" and "frame_kept t r"
  shows "frame_kept s r"
  unfolding frame_kept_def
proof (intro allI impI)
  fix k old
  assume "s k = Some old"
  with assms(1) obtain mid where m: "t k = Some mid"
    and mf: "\<forall>f. f \<notin> set doc_field_names \<longrightarrow> mid f = old f"
    unfolding frame_kept_def by blast
  from assms(2) m obtain new where n: "r k = Some new"
    and nf: "\<forall>f. f \<notin> set doc_field_names \<longrightarrow> new f = mid f"
    unfolding frame_kept_def by blast
  from n mf nf show "\<exists>new. r k = Some new \<and> (\<forall>f. f \<notin> set doc_field_names \<longrightarrow> new f = old f)"
    by simp
qed

lemma set_doc_outside:
  assumes "f \<notin> set doc_field_names"
  shows "map_of (set_doc d) f = None"
  using assms by (simp add: set_doc_def doc_field_names_def)

lemma apply_upsert_frame: "frame_kept s (fst (apply_op s (upsert_op d)))"
proof (cases "s (phish_id d)")
  case None
  then show ?thesis by (auto simp: frame_kept_def upsert_op_def)
next
  case (Some old)
  then show ?thesis
    by (auto simp: frame_kept_def upsert_op_def map_add_def set_doc_outside)
qed

lemma bulk_apply_store_Cons:
  "fst (bulk_apply rej s (w # ws)) =
     (if rej s w then fst (bulk_apply rej s ws)
      else fst (bulk_apply rej (fst (apply_op s w)) ws))"
  by (simp split: prod.splits)

lemma bulk_apply_frame:
  assumes "upserts_only ws"
  shows "frame_kept s (fst (bulk_apply rej s ws))"
  using assms
proof (induction ws arbitrary: s)
  case Nil
  then show ?case by (simp add: frame_kept_refl)
next
  case (Cons w ws)
  from Cons.prems obtain d where w: "w = upsert_op d" and rest: "upserts_only ws"
    by (auto simp: upserts_only_def)
  show ?case
  proof (cases "rej s w")
    case True
    with Cons.IH [OF rest, of s] show ?thesis by (simp only: bulk_apply_store_Cons if_True)
  next
    case False
    have "frame_kept s (fst (apply_op s w))" unfolding w by (rule apply_upsert_frame)
    moreover have "frame_kept (fst (apply_op s w)) (fst (bulk_apply rej (fst (apply_op s w)) ws))"
      by (rule Cons.IH [OF rest])
    ultimately have "frame_kept s (fst (bulk_apply rej (fst (apply_op s w)) ws))"
      by (rule frame_kept_trans)
    with False show ?thesis by (simp only: bulk_apply_store_Cons if_False)
  qed
qed

lemma rearranged_set:
  assumes "rearranges E"
  shows "set (bulk_order E s ws) = set ws"
  using assms by (auto simp: rearranges_def dest: mset_eq_setD)

lemma rearranged_upserts:
  assumes "rearranges E" and "upserts_only ws"
  shows "upserts_only (bulk_order E s ws)"
  using assms(2) by (simp add: upserts_only_def rearranged_set [OF assms(1)])

lemma process_row_frame:
  assumes "process_row E bs row st = Inr st2"
    and "upserts_only (pending_ops st)" and "\<forall>b \<in> set (commits st). upserts_only b"
    and "frame_kept s0 (coll st)" and "rearranges E"
  shows "upserts_only (pending_ops st2) \<and> (\<forall>b \<in> set (commits st2). upserts_only b)
         \<and> frame_kept s0 (coll st2)"
  using assms(1)
proof (cases rule: process_row_Inr)
  case skip
  with assms(2-4) show ?thesis by simp
next
  case (keep d)
  with assms(2-4) show ?thesis by (auto simp: upserts_only_def)
next
  case (commit d s' u m e)
  from assms(2) have up: "upserts_only (pending_ops st @ [upsert_op d])"
    by (auto simp: upserts_only_def)
  from bulk_apply_frame [OF rearranged_upserts [OF assms(5) up, of "coll st"],
      of "coll st" "rejects E"] commit(3)
  have "frame_kept (coll st) s'" by simp
  with assms(4) have "frame_kept s0 s'" by (rule frame_kept_trans)
  with commit(4) up assms(3) show ?thesis by (simp add: upserts_only_def)
qed

lemma run_loop_frame:
  assumes "run_loop E mr bs rows st = Inr st'"
    and "upserts_only (pending_ops st)" and "\<forall>b \<in> set (commits st). upserts_only b"
    and "frame_kept s0 (coll st)" and "rearranges E"
  shows "upserts_only (pending_ops st') \<and> (\<forall>b \<in> set (commits st'). upserts_only b)
         \<and> frame_kept s0 (coll st')"
  using assms(1-4)
proof (induction rows arbitrary: st)
  case Nil
  then show ?case by simp
next
  case (Cons row rest)
  from Cons.prems(1) show ?case
  proof (cases rule: run_loop_Cons_Inr)
    case break
    with Cons.prems(2-4) show ?thesis by simp
  next
    case (step st2)
    have "upserts_only (pending_ops st2) \<and> (\<forall>b \<in> set (commits st2). upserts_only b)
          \<and> frame_kept s0 (coll st2)"
      using Cons.prems(2-4) assms(5) by (intro process_row_frame [OF step(2)]) simp_all
    with Cons.IH [OF step(3)] show ?thesis by blast
  qed
qed

lemma commit_pending_frame:
  assumes "commit_pending E st = Inr st'" and "pending_ops st \<noteq> []"
    and "upserts_only (pending_ops st)" and "rearranges E"
  shows "frame_kept (coll st) (coll st')"
proof -
  from assms(1,2)
  have "coll st' = fst (bulk_apply (rejects E) (coll st)
                          (bulk_order E (coll st) (pending_ops st)))"
    by (auto simp: commit_pending_nonempty split: prod.splits)
  with bulk_apply_frame [OF rearranged_upserts [OF assms(4,3), of "coll st"]]
  show ?thesis by simp
qed

lemma run_rows_frame:
  assumes "run_rows E mr bs rows s = Inr st" and "rearranges E"
  shows "(\<forall>b \<in> set (commits st). upserts_only b) \<and> frame_kept s (coll st)"
  using assms(1)
proof (cases rule: run_rows_Inr)
  case (flush st1)
  have i: "upserts_only (pending_ops st1) \<and> (\<forall>b \<in> set (commits st1). upserts_only b)
        \<and> frame_kept s (coll st1)"
    using assms(2)
    by (intro run_loop_frame [OF flush(1)])
       (simp_all add: init_state_def upserts_only_def frame_kept_refl)
  from i have "upserts_only (pending_ops st1)" by simp
  from commit_pending_frame [OF flush(3,2) this assms(2)] i have "frame_kept s (coll st)"
    by (blast intro: frame_kept_trans)
  with i commit_pending_counts(5) [OF flush(3)] show ?thesis by simp
next
  case clean
  have "upserts_only (pending_ops st) \<and> (\<forall>b \<in> set (commits st). upserts_only b)
        \<and> frame_kept s (coll st)"
    using assms(2)
    by (intro run_loop_frame [OF clean(1)])
       (simp_all add: init_state_def upserts_only_def frame_kept_refl)
  then show ?thesis by simp
qed

text \<open>
  C9. In a run that returns, every request handed to the collection is an upsert built
  from a document of the transformer, so it sets the five fields \<^verbatim>\<open>phish_id\<close>,
  \<^verbatim>\<open>url\<close>, \<^verbatim>\<open>submission_time\<close>, \<^verbatim>\<open>verified\<close>, \<^verbatim>\<open>ingested_at\<close> and no other; with a
  server that performs the requests it is given, in whatever order, every document that
  was in the collection before the run is still there after it, with every other field
  unchanged.
\<close>

theorem upsert_frame:
  assumes "run_rows E mr bs rows s = Inr st" and "rearranges E"
  shows "(\<forall>b \<in> set (commits st). \<forall>w \<in> set b. \<exists>d. w = upsert_op d)
         \<and> (\<forall>k old. s k = Some old \<longrightarrow>
               (\<exists>new. coll st k = Some new
                      \<and> (\<forall>f. f \<notin> set doc_field_names \<longrightarrow> new f = old f)))"
  using run_rows_frame [OF assms] by (simp add: upserts_only_def frame_kept_def)

theorem upsert_frame_witness:
  "\<exists>st. run_rows ex_env None 2 five_rows ex_store = Inr st
        \<and> (\<exists>new. coll st ''p01'' = Some new \<and> new ''note'' = Some (VStr ''keep''))
        \<and> updated st = 1 \<and> inserted st = 4"
proof -
  have u: "map_sum id updated (run_rows ex_env None 2 five_rows ex_store) = Inr 1"
    and i: "map_sum id inserted (run_rows ex_env None 2 five_rows ex_store) = Inr 4"
    by code_simp+
  then obtain st where st: "run_rows ex_env None 2 five_rows ex_store = Inr st"
    by (cases "run_rows ex_env None 2 five_rows ex_store") auto
  have o: "ex_store ''p01'' = Some [''phish_id'' \<mapsto> VStr ''p01'', ''note'' \<mapsto> VStr ''keep'']"
    by (simp add: ex_store_def)
  have n: "''note'' \<notin> set doc_field_names" by (simp add: doc_field_names_def)
  have r: "rearranges ex_env" by (simp add: rearranges_def ex_env_def)
  from upsert_frame [OF st r] o n obtain new where "coll st ''p01'' = Some new"
    and "new ''note'' = [''phish_id'' \<mapsto> VStr ''p01'', ''note'' \<mapsto> VStr ''keep''] ''note''"
    by blast
  then have "\<exists>new. coll st ''p01'' = Some new \<and> new ''note'' = Some (VStr ''keep'')"
    by simp
  with st u i show ?thesis by simp
qed

section \<open>Running twice\<close>

lemma bulk_apply_no_rejects:
  "bulk_apply (\<lambda>s w. False) s ws = (store_after s ws, upserted_by s ws, matched_by s ws, 0)"
  by (induction ws arbitrary: s) (simp_all split: prod.splits)

lemma accepted_docs_Cons:
  "accepted_docs E i (row # rest) = accepted_docs E i [row] @ accepted_docs E (Suc i) rest"
  by (simp split: sum.splits option.splits)

text \<open>The requests committed or pending are those of the accepted rows, in order.\<close>

lemma process_row_requests:
  assumes "process_row E bs row st = Inr st2"
  shows "concat (commits st2) @ pending_ops st2 =
           concat (commits st) @ pending_ops st
             @ map upsert_op (accepted_docs E (processed st) [row])"
  using assms by (cases rule: process_row_Inr) simp_all

lemma run_loop_requests:
  assumes "run_loop E mr bs rows st = Inr st'"
  shows "concat (commits st') @ pending_ops st' =
           concat (commits st) @ pending_ops st
             @ map upsert_op (accepted_docs E (processed st) (capped mr (processed st) rows))"
  using assms
proof (induction rows arbitrary: st)
  case Nil
  then show ?case by (simp add: capped_def split: option.splits)
next
  case (Cons row rest)
  from Cons.prems show ?case
  proof (cases rule: run_loop_Cons_Inr)
    case break
    then show ?thesis by (simp add: capped_reached)
  next
    case (step st2)
    from process_row_counts(1) [OF step(2)] have p: "processed st2 = Suc (processed st)" by simp
    from process_row_requests [OF step(2)]
    have "concat (commits st2) @ pending_ops st2 =
            concat (commits st) @ pending_ops st
              @ map upsert_op (accepted_docs E (processed st) [row])"
      by simp
    with Cons.IH [OF step(3)] show ?thesis
      unfolding capped_Cons [OF step(1)] p
      by (subst accepted_docs_Cons) simp
  qed
qed

lemma run_rows_requests:
  assumes "run_rows E mr bs rows s = Inr st"
  shows "concat (commits st) = map upsert_op (accepted_docs E 0 (capped mr 0 rows))"
  using assms
proof (cases rule: run_rows_Inr)
  case (flush st1)
  from run_loop_requests [OF flush(1)] commit_pending_counts(5) [OF flush(3)] show ?thesis
    by (simp add: init_state_def)
next
  case clean
  from run_loop_requests [OF clean(1)] clean(2) show ?thesis
    by (simp add: init_state_def)
qed

text \<open>Upserts built from documents.\<close>

lemma key_of_upsert [simp]: "key_of (upsert_op d) = phish_id d"
  by (simp add: upsert_op_def)

lemma apply_upsert:
  "apply_op s (upsert_op d) =
     (s(phish_id d \<mapsto> doc_base s (phish_id d) ++ map_of (set_doc d)),
      if s (phish_id d) = None then 1 else 0,
      if s (phish_id d) = None then 0 else 1)"
  by (simp add: upsert_op_def doc_base_def split: option.splits)

lemma upserts_only_Cons:
  "upserts_only (w # ws) = ((\<exists>d. w = upsert_op d) \<and> upserts_only ws)"
  by (simp add: upserts_only_def)

lemma store_after_other:
  assumes "upserts_only ws" and "k \<notin> key_of ` set ws"
  shows "store_after s ws k = s k"
  using assms
proof (induction ws arbitrary: s)
  case Nil
  then show ?case by simp
next
  case (Cons w ws)
  from Cons.prems(1) obtain d where w: "w = upsert_op d" and r: "upserts_only ws"
    by (auto simp: upserts_only_Cons)
  from Cons.prems(2) w have ne: "k \<noteq> phish_id d" and nk: "k \<notin> key_of ` set ws" by auto
  have s1: "fst (apply_op s w) k = s k"
    using ne by (simp add: w apply_upsert)
  have "store_after (fst (apply_op s w)) ws k = fst (apply_op s w) k"
    using r nk by (rule Cons.IH)
  then show ?case by (simp add: s1)
qed

lemma store_after_distinct:
  assumes "upserts_only ws" and "distinct (map key_of ws)" and "upsert_op d \<in> set ws"
  shows "store_after s ws (phish_id d) = Some (doc_base s (phish_id d) ++ map_of (set_doc d))"
  using assms
proof (induction ws arbitrary: s)
  case Nil
  then show ?case by simp
next
  case (Cons w ws)
  from Cons.prems(1) obtain d' where w: "w = upsert_op d'" and r: "upserts_only ws"
    by (auto simp: upserts_only_Cons)
  from Cons.prems(2) have nk: "key_of w \<notin> key_of ` set ws" and dr: "distinct (map key_of ws)"
    by simp_all
  show ?case
  proof (cases "upsert_op d \<in> set ws")
    case True
    then have "phish_id d \<in> key_of ` set ws" by (metis image_eqI key_of_upsert)
    with nk w have ne: "phish_id d \<noteq> phish_id d'" by auto
    then have b: "doc_base (fst (apply_op s w)) (phish_id d) = doc_base s (phish_id d)"
      by (simp add: w apply_upsert doc_base_def)
    have "store_after (fst (apply_op s w)) ws (phish_id d)
            = Some (doc_base (fst (apply_op s w)) (phish_id d) ++ map_of (set_doc d))"
      using r dr True by (rule Cons.IH)
    then show ?thesis by (simp add: b)
  next
    case False
    with Cons.prems(3) have e: "w = upsert_op d" by simp
    with nk have "phish_id d \<notin> key_of ` set ws" by simp
    with r have "store_after (fst (apply_op s w)) ws (phish_id d)
                   = fst (apply_op s w) (phish_id d)"
      by (rule store_after_other)
    moreover have "fst (apply_op s w) (phish_id d)
                     = Some (doc_base s (phish_id d) ++ map_of (set_doc d))"
      by (simp add: e apply_upsert)
    ultimately show ?thesis by simp
  qed
qed

lemma dom_store_after:
  assumes "upserts_only ws"
  shows "dom (store_after s ws) = dom s \<union> key_of ` set ws"
  using assms
proof (induction ws arbitrary: s)
  case Nil
  then show ?case by simp
next
  case (Cons w ws)
  from Cons.prems obtain d where w: "w = upsert_op d" and r: "upserts_only ws"
    by (auto simp: upserts_only_Cons)
  have d1: "dom (fst (apply_op s (upsert_op d))) = insert (phish_id d) (dom s)"
    by (auto simp: apply_upsert)
  have "dom (store_after (fst (apply_op s w)) ws) = dom (fst (apply_op s w)) \<union> key_of ` set ws"
    using r by (rule Cons.IH)
  then show ?case unfolding w by (simp add: d1)
qed

lemma counts_of_known_keys:
  assumes "upserts_only ws" and "key_of ` set ws \<subseteq> dom s"
  shows "upserted_by s ws = 0 \<and> matched_by s ws = length ws"
  using assms
proof (induction ws arbitrary: s)
  case Nil
  then show ?case by simp
next
  case (Cons w ws)
  from Cons.prems(1) obtain d where w: "w = upsert_op d" and r: "upserts_only ws"
    by (auto simp: upserts_only_Cons)
  from Cons.prems(2) w obtain old where o: "s (phish_id d) = Some old" by auto
  have u: "fst (snd (apply_op s w)) = 0" and m: "snd (snd (apply_op s w)) = 1"
    using o by (simp_all add: w apply_upsert)
  from Cons.prems(2) have "key_of ` set ws \<subseteq> dom (fst (apply_op s w))"
    by (auto simp: w apply_upsert)
  with r have "upserted_by (fst (apply_op s w)) ws = 0
               \<and> matched_by (fst (apply_op s w)) ws = length ws"
    by (rule Cons.IH)
  then show ?case by (simp add: u m)
qed

lemma dom_set_doc: "dom (map_of (set_doc d)) = set doc_field_names"
  by (auto simp: set_doc_def doc_field_names_def split: if_splits)

lemma map_add_overwrite:
  assumes "dom m1 = dom m2"
  shows "(b ++ m1) ++ m2 = b ++ m2"
proof
  fix x
  show "((b ++ m1) ++ m2) x = (b ++ m2) x"
  proof (cases "m2 x")
    case None
    then have "x \<notin> dom m2" by auto
    with assms have "x \<notin> dom m1" by simp
    then have "m1 x = None" by auto
    with None show ?thesis by (simp add: map_add_def)
  next
    case (Some v)
    then show ?thesis by (simp add: map_add_def)
  qed
qed

text \<open>Two runs over the same rows accept the same documents up to the time stamp.\<close>

lemma clean_row_clock:
  "clean_row fromiso n2 row =
     map_sum id (map_option (\<lambda>d. d\<lparr> ingested_at := n2 \<rparr>)) (clean_row fromiso n1 row)"
  unfolding clean_row_def submitted_time_get
  by (simp split: sum.splits)

lemma accepted_docs_clock:
  assumes "fromisoformat E2 = fromisoformat E1"
  shows "list_all2 same_but_time (accepted_docs E1 i rows) (accepted_docs E2 i rows)"
proof (induction rows arbitrary: i)
  case Nil
  then show ?case by simp
next
  case (Cons row rest)
  have c: "clean_row (fromisoformat E2) (utcnow E2 i) row =
           map_sum id (map_option (\<lambda>d. d\<lparr> ingested_at := utcnow E2 i \<rparr>))
             (clean_row (fromisoformat E1) (utcnow E1 i) row)"
    unfolding assms by (rule clean_row_clock)
  show ?case
  proof (cases "clean_row (fromisoformat E1) (utcnow E1 i) row")
    case (Inl e)
    with c Cons.IH show ?thesis by simp
  next
    case (Inr r)
    with c Cons.IH show ?thesis
      by (cases r) (simp_all add: same_but_time_def)
  qed
qed

lemma same_but_time_keys:
  assumes "list_all2 same_but_time ds1 ds2"
  shows "map phish_id ds2 = map phish_id ds1"
  using assms by (induction rule: list_all2_induct) (auto simp: same_but_time_def)

lemma same_but_time_mem:
  assumes "list_all2 same_but_time ds1 ds2" and "d2 \<in> set ds2"
  shows "\<exists>d1 \<in> set ds1. same_but_time d1 d2"
  using assms by (induction rule: list_all2_induct) auto

lemma set_doc_same:
  assumes "same_but_time d1 d2" and "f \<noteq> ''ingested_at''"
  shows "map_of (set_doc d2) f = map_of (set_doc d1) f"
  using assms by (simp add: same_but_time_def set_doc_def)


text \<open>What a rearranged batch keeps.\<close>

lemma rearranged_length:
  assumes "rearranges E"
  shows "length (bulk_order E s ws) = length ws"
  using assms by (auto simp: rearranges_def dest: mset_eq_length)

lemma rearranged_distinct:
  assumes "rearranges E"
  shows "distinct (map key_of (bulk_order E s ws)) = distinct (map key_of ws)"
proof -
  from assms have "mset (map key_of (bulk_order E s ws)) = mset (map key_of ws)"
    by (simp add: rearranges_def)
  then show ?thesis by (rule mset_eq_imp_distinct_iff)
qed

text \<open>One committed batch keeps the run in step with the requests committed so far.\<close>

lemma commit_tracks:
  assumes t: "tracks s0 st" and re: "rearranges E" and b: "upserts_only b"
    and c2: "coll st2 = store_after (coll st) (bulk_order E (coll st) b)"
    and i2: "inserted st2 = inserted st + upserted_by (coll st) (bulk_order E (coll st) b)"
    and u2: "updated st2 = updated st + matched_by (coll st) (bulk_order E (coll st) b)"
    and m2: "commits st2 = commits st @ [b]" and p2: "upserts_only (pending_ops st2)"
  shows "tracks s0 st2"
proof -
  let ?C = "concat (commits st)"
  let ?b' = "bulk_order E (coll st) b"
  have sb: "set ?b' = set b" using re by (rule rearranged_set)
  have ub: "upserts_only ?b'" using re b by (rule rearranged_upserts)
  have lb: "length ?b' = length b" using re by (rule rearranged_length)
  have db: "distinct (map key_of ?b') = distinct (map key_of b)" using re by (rule rearranged_distinct)
  from t have tC: "upserts_only ?C"
    and tD: "dom (coll st) = dom s0 \<union> key_of ` set ?C"
    and tB: "\<forall>k. k \<notin> key_of ` set ?C \<longrightarrow> coll st k = s0 k"
    and tL: "distinct (map key_of ?C) \<longrightarrow>
           (\<forall>d. upsert_op d \<in> set ?C \<longrightarrow>
              coll st (phish_id d) = Some (doc_base s0 (phish_id d) ++ map_of (set_doc d)))"
    and tN: "key_of ` set ?C \<subseteq> dom s0 \<longrightarrow> inserted st = 0 \<and> updated st = length ?C"
    by (simp_all add: tracks_def)
  have cc: "concat (commits st2) = ?C @ b" by (simp add: m2)
  have 1: "upserts_only (?C @ b)" using tC b by (auto simp: upserts_only_def)
  have 3: "dom (coll st2) = dom s0 \<union> key_of ` set (?C @ b)"
    unfolding c2 dom_store_after [OF ub] tD sb by auto
  have 4: "coll st2 k = s0 k" if "k \<notin> key_of ` set (?C @ b)" for k
  proof -
    from that have "k \<notin> key_of ` set ?b'" and "k \<notin> key_of ` set ?C" by (auto simp: sb)
    with store_after_other [OF ub, of k "coll st"] tB show ?thesis by (simp add: c2)
  qed
  have 5: "coll st2 (phish_id d) = Some (doc_base s0 (phish_id d) ++ map_of (set_doc d))"
    if dist: "distinct (map key_of (?C @ b))" and mem: "upsert_op d \<in> set (?C @ b)" for d
  proof (cases "upsert_op d \<in> set ?C")
    case True
    then have "phish_id d \<in> key_of ` set ?C" by (metis image_eqI key_of_upsert)
    with dist have "phish_id d \<notin> key_of ` set ?b'" by (auto simp: sb)
    with store_after_other [OF ub, of "phish_id d" "coll st"]
    have "coll st2 (phish_id d) = coll st (phish_id d)" by (simp add: c2)
    with tL dist True show ?thesis by simp
  next
    case False
    with mem have inb: "upsert_op d \<in> set ?b'" by (simp add: sb)
    then have "phish_id d \<in> key_of ` set b" by (metis image_eqI key_of_upsert sb)
    with dist have "phish_id d \<notin> key_of ` set ?C" by auto
    with tB have "coll st (phish_id d) = s0 (phish_id d)" by simp
    then have base: "doc_base (coll st) (phish_id d) = doc_base s0 (phish_id d)"
      by (simp add: doc_base_def)
    from dist have "distinct (map key_of ?b')" by (simp add: db)
    from store_after_distinct [OF ub this inb, of "coll st"] show ?thesis
      by (simp add: c2 base)
  qed
  have 6: "inserted st2 = 0 \<and> updated st2 = length (?C @ b)"
    if sub: "key_of ` set (?C @ b) \<subseteq> dom s0"
  proof -
    from sub have "key_of ` set ?C \<subseteq> dom s0" by auto
    with tN have n: "inserted st = 0" "updated st = length ?C" by simp_all
    from sub tD have "key_of ` set ?b' \<subseteq> dom (coll st)" by (auto simp: sb)
    from counts_of_known_keys [OF ub this] n show ?thesis by (simp add: i2 u2 lb)
  qed
  show ?thesis
    unfolding tracks_def cc using 1 p2 3 4 5 6 by blast
qed

lemma process_row_tracks:
  assumes "process_row E bs row st = Inr st2" and "tracks s0 st"
    and "rejects E = (\<lambda>s w. False)" and "rearranges E"
  shows "tracks s0 st2"
  using assms(1)
proof (cases rule: process_row_Inr)
  case skip
  with assms(2) show ?thesis by (simp add: tracks_def)
next
  case (keep d)
  with assms(2) show ?thesis by (auto simp: tracks_def upserts_only_def)
next
  case (commit d s' u m e)
  let ?b = "pending_ops st @ [upsert_op d]"
  from assms(2) have ub: "upserts_only ?b" by (auto simp: tracks_def upserts_only_def)
  from commit(3) assms(3)
  have "s' = store_after (coll st) (bulk_order E (coll st) ?b)"
    and "u = upserted_by (coll st) (bulk_order E (coll st) ?b)"
    and "m = matched_by (coll st) (bulk_order E (coll st) ?b)"
    and "e = 0"
    by (simp_all add: bulk_apply_no_rejects)
  with commit(4) show ?thesis
    by (intro commit_tracks [OF assms(2) assms(4) ub]) (simp_all add: upserts_only_def)
qed

lemma run_loop_tracks:
  assumes "run_loop E mr bs rows st = Inr st'" and "tracks s0 st"
    and "rejects E = (\<lambda>s w. False)" and "rearranges E"
  shows "tracks s0 st'"
  using assms(1,2)
proof (induction rows arbitrary: st)
  case Nil
  then show ?case by simp
next
  case (Cons row rest)
  from Cons.prems(1) show ?case
  proof (cases rule: run_loop_Cons_Inr)
    case break
    with Cons.prems(2) show ?thesis by (simp add: tracks_def)
  next
    case (step st2)
    from Cons.prems(2) have "tracks s0 (st\<lparr>rows_read := rows_read st + 1\<rparr>)"
      by (simp add: tracks_def)
    with step(2) have "tracks s0 st2"
      using assms(3,4) by (rule process_row_tracks)
    with step(3) show ?thesis by (rule Cons.IH)
  qed
qed

lemma run_rows_tracks:
  assumes "run_rows E mr bs rows s = Inr st"
    and "rejects E = (\<lambda>s w. False)" and "rearranges E"
  shows "tracks s st"
proof -
  have init: "tracks s (init_state s)"
    by (simp add: tracks_def init_state_def upserts_only_def)
  from assms(1) show ?thesis
  proof (cases rule: run_rows_Inr)
    case (flush st1)
    from flush(1) init assms(2,3) have t1: "tracks s st1" by (rule run_loop_tracks)
    then have ub: "upserts_only (pending_ops st1)" by (simp add: tracks_def)
    from flush(2,3) assms(2)
    have "coll st = store_after (coll st1) (bulk_order E (coll st1) (pending_ops st1))"
      and "inserted st = inserted st1
             + upserted_by (coll st1) (bulk_order E (coll st1) (pending_ops st1))"
      and "updated st = updated st1
             + matched_by (coll st1) (bulk_order E (coll st1) (pending_ops st1))"
      and "commits st = commits st1 @ [pending_ops st1]"
      and "pending_ops st = pending_ops st1"
      by (auto simp: commit_pending_nonempty bulk_apply_no_rejects)
    with ub show ?thesis
      by (intro commit_tracks [OF t1 assms(3) ub]) simp_all
  next
    case clean
    from clean(1) init assms(2,3) show ?thesis by (rule run_loop_tracks)
  qed
qed

text \<open>
  C1, as the claim states it: the collection after the second run is the one after the
  first run. The transformer stamps \<^verbatim>\<open>ingested_at\<close> with the clock, and the upsert
  sets it, so the second run overwrites the field with its own time. Moreover a batch
  is written with \<^verbatim>\<open>ordered=False\<close>: when two rows of one batch carry the same
  identifier, the order that the server picks decides which of them the document keeps,
  and a second run may keep the other one.
\<close>

theorem rerun_changes_ingested_at:
  "field_of ex_first_run ''p01'' ''ingested_at'' = Some (VTime 100)
   \<and> field_of ex_second_run ''p01'' ''ingested_at'' = Some (VTime 200)
   \<and> ex_second_run \<noteq> ex_first_run
   \<and> field_of ex_dup_first_run ''p01'' ''url'' = Some (VStr ''http://b.example/'')
   \<and> field_of ex_dup_second_run ''p01'' ''url'' = Some (VStr ''http://a.example/'')"
proof -
  have a: "field_of ex_first_run ''p01'' ''ingested_at'' = Some (VTime 100)"
    by code_simp
  have b: "field_of ex_second_run ''p01'' ''ingested_at'' = Some (VTime 200)"
    by code_simp
  have c: "field_of ex_dup_first_run ''p01'' ''url'' = Some (VStr ''http://b.example/'')"
    by code_simp
  have d: "field_of ex_dup_second_run ''p01'' ''url'' = Some (VStr ''http://a.example/'')"
    by code_simp
  from a b have "ex_second_run \<noteq> ex_first_run" by auto
  with a b c d show ?thesis by simp
qed

lemma rerun_field:
  assumes t1: "tracks s0 st1" and t2: "tracks (coll st1) st2"
    and c1: "concat (commits st1) = map upsert_op ds1"
    and c2: "concat (commits st2) = map upsert_op ds2"
    and rel: "list_all2 same_but_time ds1 ds2"
    and dist: "distinct (map phish_id ds1)" and f: "f \<noteq> ''ingested_at''"
  shows "field_of (coll st2) k f = field_of (coll st1) k f"
proof (cases "k \<in> phish_id ` set ds2")
  case False
  then have "k \<notin> key_of ` set (concat (commits st2))" by (auto simp: c2)
  with t2 have "coll st2 k = coll st1 k" by (simp add: tracks_def)
  then show ?thesis by (simp add: field_of_def)
next
  case True
  then obtain d2 where d2: "d2 \<in> set ds2" and k: "k = phish_id d2" by auto
  from same_but_time_mem [OF rel d2] obtain d1 where d1: "d1 \<in> set ds1"
    and same: "same_but_time d1 d2" by blast
  from same k have k1: "k = phish_id d1" by (simp add: same_but_time_def)
  have m1: "map key_of (concat (commits st1)) = map phish_id ds1" by (simp add: c1 comp_def)
  have m2: "map key_of (concat (commits st2)) = map phish_id ds1"
    by (simp add: c2 comp_def same_but_time_keys [OF rel])
  from d1 have i1: "upsert_op d1 \<in> set (concat (commits st1))" by (simp add: c1)
  from d2 have i2: "upsert_op d2 \<in> set (concat (commits st2))" by (simp add: c2)
  from t1 dist i1 have s1: "coll st1 k = Some (doc_base s0 k ++ map_of (set_doc d1))"
    unfolding k1 by (simp add: tracks_def m1)
  then have b: "doc_base (coll st1) k = doc_base s0 k ++ map_of (set_doc d1)"
    by (simp add: doc_base_def)
  have dd: "dom (map_of (set_doc d1)) = dom (map_of (set_doc d2))" by (simp add: dom_set_doc)
  from t2 dist i2 have "coll st2 k = Some (doc_base (coll st1) k ++ map_of (set_doc d2))"
    unfolding k by (simp add: tracks_def m2)
  then have s2: "coll st2 k = Some (doc_base s0 k ++ map_of (set_doc d2))"
    unfolding b by (simp only: map_add_overwrite [OF dd])
  from set_doc_same [OF same f] show ?thesis
    unfolding field_of_def s1 s2 by (simp add: map_add_def)
qed

text \<open>
  C1, amended. When no write fails and the server performs the requests of each batch,
  in whatever order, a second run over the same rows (same cap, any batch size, any
  clock) on the collection that the first run left returns, inserts nothing, counts
  every accepted row as updated and leaves the set of documents as it was; when the
  accepted rows have pairwise distinct identifiers it leaves every field but
  \<^verbatim>\<open>ingested_at\<close> of every document as it was.
\<close>

theorem rerun_idempotent:
  assumes "rejects E1 = (\<lambda>s w. False)" and "rejects E2 = (\<lambda>s w. False)"
    and "rearranges E1" and "rearranges E2"
    and "fromisoformat E2 = fromisoformat E1"
    and "run_rows E1 mr bs1 rows s0 = Inr st1"
  shows "\<exists>st2. run_rows E2 mr bs2 rows (coll st1) = Inr st2
           \<and> inserted st2 = 0
           \<and> updated st2 = length (accepted_docs E1 0 (capped mr 0 rows))
           \<and> processed st2 = skipped st2 + updated st2
           \<and> dom (coll st2) = dom (coll st1)
           \<and> (distinct (map phish_id (accepted_docs E1 0 (capped mr 0 rows))) \<longrightarrow>
                (\<forall>k f. f \<noteq> ''ingested_at'' \<longrightarrow>
                   field_of (coll st2) k f = field_of (coll st1) k f))"
proof -
  let ?ds1 = "accepted_docs E1 0 (capped mr 0 rows)"
  let ?ds2 = "accepted_docs E2 0 (capped mr 0 rows)"
  from run_rows_no_raise [OF assms(6)] run_rows_returns
  obtain st2 where st2: "run_rows E2 mr bs2 rows (coll st1) = Inr st2" by blast
  have rel: "list_all2 same_but_time ?ds1 ?ds2"
    using assms(5) by (rule accepted_docs_clock)
  then have len: "length ?ds2 = length ?ds1" by (simp add: list_all2_lengthD)
  have c1: "concat (commits st1) = map upsert_op ?ds1" using assms(6) by (rule run_rows_requests)
  have c2: "concat (commits st2) = map upsert_op ?ds2" using st2 by (rule run_rows_requests)
  have t1: "tracks s0 st1" using assms(6,1,3) by (rule run_rows_tracks)
  have t2: "tracks (coll st1) st2" using st2 assms(2,4) by (rule run_rows_tracks)
  have "set (map phish_id ?ds2) = set (map phish_id ?ds1)"
    by (simp only: same_but_time_keys [OF rel])
  then have "key_of ` set (concat (commits st2)) = key_of ` set (concat (commits st1))"
    by (simp add: c1 c2 image_image)
  moreover from t1 have "key_of ` set (concat (commits st1)) \<subseteq> dom (coll st1)"
    by (auto simp: tracks_def)
  ultimately have keys: "key_of ` set (concat (commits st2)) \<subseteq> dom (coll st1)" by simp
  with t2 have cnt: "inserted st2 = 0" "updated st2 = length (concat (commits st2))"
    by (simp_all add: tracks_def)
  from cnt(2) len have upd: "updated st2 = length ?ds1" by (simp add: c2)
  from run_rows_balance [OF st2] cnt(2) have bal: "processed st2 = skipped st2 + updated st2"
    by simp
  from t2 keys have d: "dom (coll st2) = dom (coll st1)" by (auto simp: tracks_def)
  have f: "field_of (coll st2) k f = field_of (coll st1) k f"
    if "distinct (map phish_id ?ds1)" and "f \<noteq> ''ingested_at''" for k f
    using t1 t2 c1 c2 rel that by (rule rerun_field)
  from st2 cnt(1) upd bal d f show ?thesis by blast
qed

theorem rerun_idempotent_witness:
  "\<exists>st1 st2. run_rows ex_env None 2 five_rows Map.empty = Inr st1
      \<and> run_rows ex_env_later None 2 five_rows (coll st1) = Inr st2
      \<and> inserted st1 = 5 \<and> inserted st2 = 0 \<and> updated st2 = 5
      \<and> dom (coll st2) = dom (coll st1)
      \<and> field_of (coll st2) ''p03'' ''url'' = field_of (coll st1) ''p03'' ''url''"
proof -
  have i: "map_sum id inserted (run_rows ex_env None 2 five_rows Map.empty) = Inr 5"
    by code_simp
  then obtain st1 where st1: "run_rows ex_env None 2 five_rows Map.empty = Inr st1"
    and i1: "inserted st1 = 5"
    by (cases "run_rows ex_env None 2 five_rows Map.empty") auto
  have r1: "rejects ex_env = (\<lambda>s w. False)" by (simp add: ex_env_def)
  have r2: "rejects ex_env_later = (\<lambda>s w. False)" by (simp add: ex_env_later_def ex_env_def)
  have o1: "rearranges ex_env" by (simp add: rearranges_def ex_env_def)
  have o2: "rearranges ex_env_later" by (simp add: rearranges_def ex_env_later_def ex_env_def)
  have p: "fromisoformat ex_env_later = fromisoformat ex_env" by (simp add: ex_env_later_def)
  have l: "length (accepted_docs ex_env 0 (capped None 0 five_rows)) = 5" by code_simp
  have dis: "distinct (map phish_id (accepted_docs ex_env 0 (capped None 0 five_rows)))"
    by code_simp
  have n: "''url'' \<noteq> ''ingested_at''" by simp
  from rerun_idempotent [OF r1 r2 o1 o2 p st1, of 2] obtain st2
    where all: "run_rows ex_env_later None 2 five_rows (coll st1) = Inr st2
           \<and> inserted st2 = 0
           \<and> updated st2 = length (accepted_docs ex_env 0 (capped None 0 five_rows))
           \<and> processed st2 = skipped st2 + updated st2
           \<and> dom (coll st2) = dom (coll st1)
           \<and> (distinct (map phish_id (accepted_docs ex_env 0 (capped None 0 five_rows))) \<longrightarrow>
                (\<forall>k f. f \<noteq> ''ingested_at'' \<longrightarrow>
                   field_of (coll st2) k f = field_of (coll st1) k f))" ..
  from all have s2: "run_rows ex_env_later None 2 five_rows (coll st1) = Inr st2"
    by (elim conjE)
  from all have i2: "inserted st2 = 0"
    by (elim conjE)
  from all have u2: "updated st2 = length (accepted_docs ex_env 0 (capped None 0 five_rows))"
    by (elim conjE)
  from all have d: "dom (coll st2) = dom (coll st1)"
    by (elim conjE)
  from all dis have f: "\<forall>k f. f \<noteq> ''ingested_at'' \<longrightarrow>
                 field_of (coll st2) k f = field_of (coll st1) k f"
    by (elim conjE impE)
  from f n have g: "field_of (coll st2) ''p03'' ''url'' = field_of (coll st1) ''p03'' ''url''"
    by (elim allE impE)
  from u2 l have u: "updated st2 = 5" by (simp only:)
  have "run_rows ex_env None 2 five_rows Map.empty = Inr st1
      \<and> run_rows ex_env_later None 2 five_rows (coll st1) = Inr st2
      \<and> inserted st1 = 5 \<and> inserted st2 = 0 \<and> updated st2 = 5
      \<and> dom (coll st2) = dom (coll st1)
      \<and> field_of (coll st2) ''p03'' ''url'' = field_of (coll st1) ''p03'' ''url''"
    using st1 s2 i1 i2 u d g by (intro conjI)
  then show ?thesis by (intro exI)
qed

end
